theory Spec2Isabelle
  imports Main "HOL-Library.Word" "HOL-Library.Multiset"
begin

section \<open>The data model of \<open>imap.c\<close>\<close>

text \<open>
  \<open>imap_t\<close> maps \<open>uint64_t\<close> keys to \<open>void *\<close> values. A value slot holds \<open>None\<close> for the
  \<open>NULL\<close> pointer and \<open>Some v\<close> for a non-null value; a children array is \<open>None\<close> for
  \<open>NULL\<close> and \<open>Some ns\<close> for an array obtained from \<open>calloc (IMAP_NODE_SZ, ...)\<close>.
  The counters \<open>len\<close> and \<open>size\<close> are \<open>size_t\<close>, modelled as 64-bit words.
\<close>

type_synonym u64 = "64 word"

datatype 'a imap_node =
  Node (data: "'a option") (nodes: "'a imap_node list option") (size_n: u64)

datatype 'a imap =
  Imap (len: u64) (nodes_m: "'a imap_node list")

definition IMAP_NODE_SZ :: nat where
  "IMAP_NODE_SZ = 32"

text \<open>A node as \<open>calloc\<close> leaves it: all fields zero.\<close>

definition zero_node :: "'a imap_node" where
  "zero_node = Node None None 0"

text \<open>
  The allocator is an oracle: the list holds the outcomes of the coming \<open>calloc\<close> calls
  (\<open>False\<close> is a \<open>NULL\<close> result); once the list is used up every call succeeds.
  \<open>ERR_ALLOC\<close> records the error outside the map and is not modelled; the caller sees the
  failure in the result.
\<close>

fun calloc :: "bool list \<Rightarrow> bool \<times> bool list" where
  "calloc [] = (True, [])"
| "calloc (b # bs) = (b, bs)"

text \<open>
  \<open>imap_new\<close> (lines 35-49): one \<open>calloc\<close> of the handle together with its
  \<open>IMAP_NODE_SZ\<close> top-level nodes, then \<open>len = 0\<close>.
\<close>

definition imap_zeroed :: "'a imap" where
  "imap_zeroed = Imap 0 (replicate IMAP_NODE_SZ zero_node)"

definition imap_new :: "bool list \<Rightarrow> 'a imap option \<times> bool list" where
  "imap_new al =
     (case calloc al of
        (False, al') \<Rightarrow> (None, al')
      | (True, al') \<Rightarrow> (Some imap_zeroed, al'))"

lemma key_descent: "key div 32 \<noteq> 0 \<Longrightarrow> unat (key div 32 - 1) < unat (key :: u64)"
proof -
  assume nz: "key div 32 \<noteq> 0"
  have "unat (key div 32 - 1) = unat (key div 32) - 1"
    using nz by (simp add: unat_minus_one)
  moreover have "unat (key div 32) = unat key div 32"
    by (simp add: unat_div)
  moreover have "unat (key div 32) \<noteq> 0"
    using nz by (simp add: unat_eq_0)
  ultimately show ?thesis by simp
qed

text \<open>
  \<open>IMAP_add\<close> (lines 413-450). The result is \<open>None\<close> where the C code would dereference a
  \<open>NULL\<close> children array (\<open>size\<close> nonzero, \<open>nodes\<close> \<open>NULL\<close>); otherwise the return code, the
  updated node and the remaining allocator outcomes.
\<close>

function IMAP_add ::
  "'a imap_node \<Rightarrow> u64 \<Rightarrow> 'a \<Rightarrow> bool list \<Rightarrow> (int \<times> 'a imap_node \<times> bool list) option" where
  "IMAP_add node key d al =
     (let (ok, al1) = (if size_n node = 0 then calloc al else (True, al));
          nodes1 = (if size_n node = 0
                    then (if ok then Some (replicate IMAP_NODE_SZ zero_node) else None)
                    else nodes node)
      in if \<not> ok then Some (- 1, Node (data node) nodes1 (size_n node), al1)
         else
           (case nodes1 of
              None \<Rightarrow> None
            | Some ns \<Rightarrow>
                (if key div 32 = 0
                 then
                   (let nd = ns ! unat (key mod 32);
                        rc = (if data nd = None then 1 else 0)
                    in Some (rc,
                             Node (data node)
                               (Some (ns[unat (key mod 32) := Node (Some d) (nodes nd) (size_n nd)]))
                               (size_n node + word_of_int rc),
                             al1))
                 else
                   (case IMAP_add (ns ! unat (key mod 32)) (key div 32 - 1) d al1 of
                      None \<Rightarrow> None
                    | Some (rc, nd', al2) \<Rightarrow>
                        Some (rc,
                              Node (data node)
                                (Some (ns[unat (key mod 32) := nd']))
                                (if rc > 0 then size_n node + 1 else size_n node),
                              al2)))))"
  by pat_completeness auto
termination
  by (relation "measure (\<lambda>(node, key, d, al). unat key)") (auto simp: key_descent)

text \<open>\<open>imap_add\<close> (lines 105-135).\<close>

definition imap_add ::
  "'a imap \<Rightarrow> u64 \<Rightarrow> 'a \<Rightarrow> bool list \<Rightarrow> (int \<times> 'a imap \<times> bool list) option" where
  "imap_add imap key d al =
     (let nd = nodes_m imap ! unat (key mod 32)
      in if key div 32 = 0
         then Some (0,
                    Imap (if data nd = None then len imap + 1 else len imap)
                      ((nodes_m imap)[unat (key mod 32) := Node (Some d) (nodes nd) (size_n nd)]),
                    al)
         else
           (case IMAP_add nd (key div 32 - 1) d al of
              None \<Rightarrow> None
            | Some (rc, nd', al') \<Rightarrow>
                Some (rc,
                      Imap (if rc > 0 then len imap + 1 else len imap)
                        ((nodes_m imap)[unat (key mod 32) := nd']),
                      al')))"

text \<open>
  \<open>IMAP_get\<close> (lines 452-463). Every call site tests \<open>nodes \<noteq> NULL\<close> first, so the
  first branch is never taken.
\<close>

function IMAP_get :: "'a imap_node \<Rightarrow> u64 \<Rightarrow> 'a option" where
  "IMAP_get node key =
     (case nodes node of
        None \<Rightarrow> None
      | Some ns \<Rightarrow>
          (let nd = ns ! unat (key mod 32)
           in if key div 32 = 0 then data nd
              else if nodes nd = None then None
              else IMAP_get nd (key div 32 - 1)))"
  by pat_completeness auto
termination
  by (relation "measure (\<lambda>(node, key). unat key)") (auto simp: key_descent)

text \<open>\<open>imap_get\<close> (lines 140-151).\<close>

definition imap_get :: "'a imap \<Rightarrow> u64 \<Rightarrow> 'a option" where
  "imap_get imap key =
     (let nd = nodes_m imap ! unat (key mod 32)
      in if key div 32 = 0 then data nd
         else if nodes nd = None then None
         else IMAP_get nd (key div 32 - 1))"

text \<open>
  \<open>IMAP_pop\<close> (lines 465-498) returns the removed value and the updated node. As for
  \<open>IMAP_get\<close> the callers test \<open>nodes \<noteq> NULL\<close>. \<open>free (node->nodes)\<close> followed by
  \<open>node->nodes = NULL\<close> is the children array becoming \<open>None\<close>.
\<close>

function IMAP_pop :: "'a imap_node \<Rightarrow> u64 \<Rightarrow> 'a option \<times> 'a imap_node" where
  "IMAP_pop node key =
     (case nodes node of
        None \<Rightarrow> (None, node)
      | Some ns \<Rightarrow>
          (if key div 32 = 0
           then
             (let nd = ns ! unat (key mod 32)
              in case data nd of
                   None \<Rightarrow> (None, node)
                 | Some v \<Rightarrow>
                     (if size_n node - 1 \<noteq> 0
                      then (Some v,
                            Node (data node)
                              (Some (ns[unat (key mod 32) := Node None (nodes nd) (size_n nd)]))
                              (size_n node - 1))
                      else (Some v, Node (data node) None (size_n node - 1))))
           else
             (let (d, nd') = (if nodes (ns ! unat (key mod 32)) = None
                              then (None, ns ! unat (key mod 32))
                              else IMAP_pop (ns ! unat (key mod 32)) (key div 32 - 1))
              in if d \<noteq> None \<and> size_n node - 1 = 0
                 then (d, Node (data node) None (size_n node - 1))
                 else (d,
                       Node (data node)
                         (Some (ns[unat (key mod 32) := nd']))
                         (if d \<noteq> None then size_n node - 1 else size_n node)))))"
  by pat_completeness auto
termination
  by (relation "measure (\<lambda>(node, key). unat key)") (auto simp: key_descent)

text \<open>\<open>imap_pop\<close> (lines 156-177).\<close>

definition imap_pop :: "'a imap \<Rightarrow> u64 \<Rightarrow> 'a option \<times> 'a imap" where
  "imap_pop imap key =
     (let nd = nodes_m imap ! unat (key mod 32)
      in if key div 32 = 0
         then
           (case data nd of
              None \<Rightarrow> (None, imap)
            | Some v \<Rightarrow>
                (Some v,
                 Imap (len imap - 1)
                   ((nodes_m imap)[unat (key mod 32) := Node None (nodes nd) (size_n nd)])))
         else
           (let (d, nd') = (if nodes nd = None then (None, nd)
                            else IMAP_pop nd (key div 32 - 1))
            in (d,
                Imap (len imap - (if d \<noteq> None then 1 else 0))
                  ((nodes_m imap)[unat (key mod 32) := nd']))))"

section \<open>Traversals\<close>

text \<open>
  A callback \<open>imap_cb\<close> receives a value and the caller's context and returns a C
  \<open>int\<close>, a 32-bit word read as a signed number (\<open>sint\<close>); what it does to the context is
  part of its result. The \<open>for\<close> loop over the \<open>IMAP_NODE_SZ\<close> nodes of an array is a
  recursion over the array; the loop of \<open>imap_walk\<close> over the top-level array has the same
  body as the loop of \<open>IMAP_walk\<close>, and likewise for the other traversals. The sum \<open>rc\<close>
  is a C \<open>int\<close> too: the addition is that of 32-bit words, which wraps around. (Signed
  overflow is undefined in C; the wrap-around is what the two's complement addition of
  the compiled code gives.)
\<close>

type_synonym c_int = "32 word"

type_synonym ('a, 'c) imap_cb = "'a \<Rightarrow> 'c \<Rightarrow> c_int \<times> 'c"

text \<open>\<open>IMAP_walk\<close> (lines 500-518) and \<open>imap_walk\<close> (lines 185-210).\<close>

fun IMAP_walk :: "'a imap_node \<Rightarrow> ('a, 'c) imap_cb \<Rightarrow> 'c \<Rightarrow> c_int \<Rightarrow> 'c \<times> c_int"
  and IMAP_walk_loop ::
    "'a imap_node list \<Rightarrow> ('a, 'c) imap_cb \<Rightarrow> 'c \<Rightarrow> c_int \<Rightarrow> 'c \<times> c_int" where
  "IMAP_walk (Node d c s) cb ctx rc =
     (case c of None \<Rightarrow> (ctx, rc) | Some ns \<Rightarrow> IMAP_walk_loop ns cb ctx rc)"
| "IMAP_walk_loop [] cb ctx rc = (ctx, rc)"
| "IMAP_walk_loop (Node d c s # rest) cb ctx rc =
     (case (case d of
              None \<Rightarrow> (ctx, rc)
            | Some v \<Rightarrow> (case cb v ctx of (r, ctx1) \<Rightarrow> (ctx1, rc + r))) of
        (ctx1, rc1) \<Rightarrow>
          (case (if c \<noteq> None then IMAP_walk (Node d c s) cb ctx1 rc1 else (ctx1, rc1)) of
             (ctx2, rc2) \<Rightarrow> IMAP_walk_loop rest cb ctx2 rc2))"

definition imap_walk :: "'a imap \<Rightarrow> ('a, 'c) imap_cb \<Rightarrow> 'c \<Rightarrow> 'c \<times> c_int" where
  "imap_walk imap cb ctx =
     (if len imap \<noteq> 0 then IMAP_walk_loop (nodes_m imap) cb ctx 0 else (ctx, 0))"

text \<open>
  \<open>IMAP_walkn\<close> (lines 520-538) and \<open>imap_walkn\<close> (lines 218-239). The budget \<open>n\<close> is a
  \<open>size_t\<close>; the compound assignment that subtracts the callback's result converts that
  \<open>int\<close> to \<open>size_t\<close> (the 64-bit word of its signed value) and subtracts modulo
  \<open>2 ^ 64\<close>. The loop stops when \<open>n\<close> is zero at the head of an iteration, and
  the function returns from inside the loop when the subtraction gives zero.
\<close>

fun IMAP_walkn :: "'a imap_node \<Rightarrow> ('a, 'c) imap_cb \<Rightarrow> 'c \<Rightarrow> u64 \<Rightarrow> 'c \<times> u64"
  and IMAP_walkn_loop :: "'a imap_node list \<Rightarrow> ('a, 'c) imap_cb \<Rightarrow> 'c \<Rightarrow> u64 \<Rightarrow> 'c \<times> u64" where
  "IMAP_walkn (Node d c s) cb ctx n =
     (case c of None \<Rightarrow> (ctx, n) | Some ns \<Rightarrow> IMAP_walkn_loop ns cb ctx n)"
| "IMAP_walkn_loop [] cb ctx n = (ctx, n)"
| "IMAP_walkn_loop (Node d c s # rest) cb ctx n =
     (if n = 0 then (ctx, n)
      else
        (case (case d of
                 None \<Rightarrow> (ctx, n)
               | Some v \<Rightarrow> (case cb v ctx of (r, ctx1) \<Rightarrow> (ctx1, n - word_of_int (sint r)))) of
           (ctx1, n1) \<Rightarrow>
             if d \<noteq> None \<and> n1 = 0 then (ctx1, n1)
             else
               (case (if c \<noteq> None then IMAP_walkn (Node d c s) cb ctx1 n1 else (ctx1, n1)) of
                  (ctx2, n2) \<Rightarrow> IMAP_walkn_loop rest cb ctx2 n2)))"

definition imap_walkn :: "'a imap \<Rightarrow> u64 \<Rightarrow> ('a, 'c) imap_cb \<Rightarrow> 'c \<Rightarrow> 'c \<times> u64" where
  "imap_walkn imap n cb ctx =
     (if len imap \<noteq> 0 then IMAP_walkn_loop (nodes_m imap) cb ctx n else (ctx, n))"

text \<open>
  Modelled from the spec: \<open>slist_new\<close> and \<open>slist_append\<close> of \<open>slist.h\<close>, which is not part
  of these sources. The spec describes the sequence collaborator by "create with
  capacity N", which may fail, and "append one element"; a sequence is the list of its
  elements in the order they were appended.
\<close>

definition slist_new :: "u64 \<Rightarrow> bool list \<Rightarrow> 'a list option \<times> bool list" where
  "slist_new sz al = (case calloc al of (ok, al') \<Rightarrow> (if ok then Some [] else None, al'))"

definition slist_append :: "'a list \<Rightarrow> 'a \<Rightarrow> 'a list" where
  "slist_append slist v = slist @ [v]"

text \<open>\<open>IMAP_2slist\<close> (lines 540-558) and \<open>imap_2slist\<close> (lines 244-272).\<close>

fun IMAP_2slist :: "'a imap_node \<Rightarrow> 'a list \<Rightarrow> 'a list"
  and IMAP_2slist_loop :: "'a imap_node list \<Rightarrow> 'a list \<Rightarrow> 'a list" where
  "IMAP_2slist (Node d c s) slist =
     (case c of None \<Rightarrow> slist | Some ns \<Rightarrow> IMAP_2slist_loop ns slist)"
| "IMAP_2slist_loop [] slist = slist"
| "IMAP_2slist_loop (Node d c s # rest) slist =
     IMAP_2slist_loop rest
       (if c \<noteq> None
        then IMAP_2slist (Node d c s) (case d of None \<Rightarrow> slist | Some v \<Rightarrow> slist_append slist v)
        else (case d of None \<Rightarrow> slist | Some v \<Rightarrow> slist_append slist v))"

definition imap_2slist :: "'a imap \<Rightarrow> bool list \<Rightarrow> 'a list option \<times> bool list" where
  "imap_2slist imap al =
     (case slist_new (len imap) al of
        (None, al') \<Rightarrow> (None, al')
      | (Some slist, al') \<Rightarrow>
          (Some (if len imap \<noteq> 0 then IMAP_2slist_loop (nodes_m imap) slist else slist), al'))"

section \<open>Union by reference\<close>

text \<open>
  \<open>IMAP_union_ref\<close> (lines 581-627) and \<open>imap_union_ref\<close> (lines 316-368).
  \<open>slist_object_decref\<close> is a macro of \<open>slist.h\<close>, which is not part of these sources: it
  is the parameter \<open>decref\<close>, acting on the state \<open>'s\<close> of the objects the map refers
  to. The loop runs over the slots of both arrays together; \<open>cnt\<close> is the counter the loop
  adds to (\<open>dest->size\<close>, or \<open>dest->len\<close> at the top level).

  The calls of \<open>free\<close> are counted: \<open>fr\<close> is the number of blocks freed so far. Every call
  of \<open>IMAP_union_ref\<close> ends by freeing the children array of the source node, and
  \<open>imap_union_ref\<close> ends by freeing the source map, a single block that holds \<open>len\<close> and
  the top-level array (as \<open>imap_new\<close> allocates it), and setting the caller's handle to
  \<open>NULL\<close>. A children array that moves to \<open>dest\<close> is unlinked from the source and not
  freed.
\<close>

fun IMAP_union_ref ::
    "'a imap_node \<Rightarrow> 'a imap_node \<Rightarrow> ('a \<Rightarrow> 's \<Rightarrow> 's) \<Rightarrow> 's \<Rightarrow> nat \<Rightarrow>
     'a imap_node \<times> 's \<times> nat"
  and IMAP_union_loop ::
    "'a imap_node list \<Rightarrow> 'a imap_node list \<Rightarrow> ('a \<Rightarrow> 's \<Rightarrow> 's) \<Rightarrow> u64 \<Rightarrow> 's \<Rightarrow> nat \<Rightarrow>
     'a imap_node list \<times> u64 \<times> 's \<times> nat" where
  "IMAP_union_ref dest (Node d c s) decref st fr =
     (case c of
        None \<Rightarrow> (dest, st, fr)
      | Some ns \<Rightarrow>
          (case nodes dest of
             None \<Rightarrow> (dest, st, fr)
           | Some dns \<Rightarrow>
               (case IMAP_union_loop dns ns decref (size_n dest) st fr of
                  (dns', sz', st', fr') \<Rightarrow> (Node (data dest) (Some dns') sz', st', fr' + 1))))"
| "IMAP_union_loop [] ns decref cnt st fr = ([], cnt, st, fr)"
| "IMAP_union_loop (dest_nd # drest) [] decref cnt st fr = (dest_nd # drest, cnt, st, fr)"
| "IMAP_union_loop (dest_nd # drest) (Node d c s # rest) decref cnt st fr =
     (case (case d of
              None \<Rightarrow> (dest_nd, cnt, st)
            | Some v \<Rightarrow>
                if data dest_nd \<noteq> None then (dest_nd, cnt, decref v st)
                else (Node (Some v) (nodes dest_nd) (size_n dest_nd), cnt + 1, st)) of
        (dn1, cnt1, st1) \<Rightarrow>
          (case (case c of
                   None \<Rightarrow> (dn1, cnt1, st1, fr)
                 | Some cs \<Rightarrow>
                     if nodes dn1 \<noteq> None
                     then (case IMAP_union_ref dn1 (Node d c s) decref st1 fr of
                             (dn', st', fr') \<Rightarrow>
                               (dn', cnt1 + (size_n dn' - size_n dn1), st', fr'))
                     else (Node (data dn1) (Some cs) s, cnt1 + s, st1, fr)) of
             (dn2, cnt2, st2, fr2) \<Rightarrow>
               (case IMAP_union_loop drest rest decref cnt2 st2 fr2 of
                  (drest', cnt3, st3, fr3) \<Rightarrow> (dn2 # drest', cnt3, st3, fr3))))"

definition imap_union_ref ::
  "'a imap \<Rightarrow> 'a imap \<Rightarrow> ('a \<Rightarrow> 's \<Rightarrow> 's) \<Rightarrow> 's \<Rightarrow> 'a imap \<times> 'a imap option \<times> 's \<times> nat" where
  "imap_union_ref dest imap decref st =
     (if len imap \<noteq> 0
      then (case IMAP_union_loop (nodes_m dest) (nodes_m imap) decref (len dest) st 0 of
              (ns', len', st', fr) \<Rightarrow> (Imap len' ns', None, st', fr + 1))
      else (dest, None, st, 1))"

section \<open>Abstraction: the entries of a map\<close>

text \<open>
  A key is read digit by digit in base 32, least significant digit first. A slot of an
  array stands for the key that ends at it, and for the keys that go on through its
  children: the key \<open>k\<close> below slot \<open>i\<close> is the key \<open>i + 32 * (k + 1)\<close> of the array, the
  inverse of the step \<open>id % 32\<close>, \<open>id / 32\<close>, \<open>id - 1\<close> of the C functions. Keys are natural
  numbers here, so that a tree is described whatever its depth; the 64-bit keys are the
  ones below \<open>2 ^ 64\<close>.
\<close>

definition shift_key :: "nat \<Rightarrow> nat \<Rightarrow> nat" where
  "shift_key i k = i + 32 * (k + 1)"

text \<open>
  \<open>lookup_slots\<close> is the lookup of \<open>imap_get\<close> and \<open>IMAP_get\<close> on such keys: the
  abstraction function of an array of nodes, a partial map from keys to values.
\<close>

function lookup_slots :: "'a imap_node list \<Rightarrow> nat \<Rightarrow> 'a option" where
  "lookup_slots ns k =
     (let nd = ns ! (k mod 32)
      in if k div 32 = 0 then data nd
         else (case nodes nd of
                 None \<Rightarrow> None
               | Some cs \<Rightarrow> lookup_slots cs (k div 32 - 1)))"
  by pat_completeness auto
termination
  by (relation "measure (\<lambda>(ns, k). k)") auto

text \<open>
  \<open>entries_slots i ns\<close> lists the key/value pairs stored in the slots \<open>ns\<close>, the first of
  which is slot \<open>i\<close> of its array, in the order of the traversals: for every slot its own
  value, then the entries below it, then the following slots.
\<close>

fun entries_slots :: "nat \<Rightarrow> 'a imap_node list \<Rightarrow> (nat \<times> 'a) list" where
  "entries_slots i [] = []"
| "entries_slots i (Node d c s # rest) =
     (case d of None \<Rightarrow> [] | Some v \<Rightarrow> [(i, v)]) @
     (case c of
        None \<Rightarrow> []
      | Some cs \<Rightarrow> map (\<lambda>(k, v). (shift_key i k, v)) (entries_slots 0 cs)) @
     entries_slots (Suc i) rest"

text \<open>
  The representation invariant of the nodes: a children array has \<open>IMAP_NODE_SZ\<close> nodes,
  \<open>size\<close> is the number of entries below the node, and a node without children array
  has \<open>size = 0\<close>. A node with \<open>size = 0\<close> may still own an array that holds no entry: that
  is what a failed \<open>IMAP_add\<close> leaves behind.
\<close>

fun wf_slots :: "'a imap_node list \<Rightarrow> bool" where
  "wf_slots [] = True"
| "wf_slots (Node d c s # rest) =
     ((case c of
         None \<Rightarrow> s = 0
       | Some cs \<Rightarrow> length cs = 32 \<and> wf_slots cs \<and> unat s = length (entries_slots 0 cs)) \<and>
      wf_slots rest)"

declare lookup_slots.simps [simp del]

lemma shift_key_mod: "i < 32 \<Longrightarrow> shift_key i k mod 32 = i"
  unfolding shift_key_def by (simp only: mod_mult_self2) simp

lemma shift_key_div: "i < 32 \<Longrightarrow> shift_key i k div 32 = k + 1"
  unfolding shift_key_def by (subst div_mult_self2) simp_all

lemma shift_key_decomp: "K div 32 \<noteq> 0 \<Longrightarrow> shift_key (K mod 32) (K div 32 - 1) = K"
proof -
  assume "K div 32 \<noteq> 0"
  then have "K div 32 - 1 + 1 = K div 32" by simp
  then show ?thesis unfolding shift_key_def by (simp only: mod_mult_div_eq)
qed

lemma shift_key_inj: "shift_key i k = shift_key i k' \<Longrightarrow> k = k'"
  by (simp add: shift_key_def)

lemma map_of_shift:
  "map_of (map (\<lambda>(k, v). (shift_key i k, v)) es) (shift_key i k') = map_of es k'"
  by (induction es) (auto dest: shift_key_inj)

lemma map_of_shift_other:
  "i < 32 \<Longrightarrow> K mod 32 \<noteq> i \<or> K div 32 = 0 \<Longrightarrow>
   map_of (map (\<lambda>(k, v). (shift_key i k, v)) es) K = None"
proof -
  assume i: "i < 32" and K: "K mod 32 \<noteq> i \<or> K div 32 = 0"
  have "K \<notin> fst ` set (map (\<lambda>(k, v). (shift_key i k, v)) es)"
  proof
    assume "K \<in> fst ` set (map (\<lambda>(k, v). (shift_key i k, v)) es)"
    then obtain k where "K = shift_key i k" by auto
    with i K show False by (simp add: shift_key_mod shift_key_div)
  qed
  then show ?thesis by (simp add: map_of_eq_None_iff)
qed

text \<open>What one slot contributes to a lookup.\<close>

definition slot_get :: "'a imap_node \<Rightarrow> nat \<Rightarrow> 'a option" where
  "slot_get nd q =
     (if q = 0 then data nd
      else (case nodes nd of None \<Rightarrow> None | Some cs \<Rightarrow> lookup_slots cs (q - 1)))"

lemma lookup_slots_slot: "lookup_slots ns k = slot_get (ns ! (k mod 32)) (k div 32)"
  by (simp add: lookup_slots.simps [of ns k] slot_get_def Let_def)

definition slot_entries :: "nat \<Rightarrow> 'a option \<Rightarrow> 'a imap_node list option \<Rightarrow> (nat \<times> 'a) list" where
  "slot_entries i d c =
     (case d of None \<Rightarrow> [] | Some v \<Rightarrow> [(i, v)]) @
     (case c of
        None \<Rightarrow> []
      | Some cs \<Rightarrow> map (\<lambda>(k, v). (shift_key i k, v)) (entries_slots 0 cs))"

lemma entries_slots_Cons:
  "entries_slots i (Node d c s # rest) = slot_entries i d c @ entries_slots (Suc i) rest"
  by (simp add: slot_entries_def)

lemma digits_zero: "K div 32 = 0 \<Longrightarrow> K mod 32 = i \<Longrightarrow> K = (i::nat)"
  by (simp add: div_eq_0_iff)

lemma map_of_slot_entries:
  assumes i: "i < 32"
    and sub: "\<And>cs. c = Some cs \<Longrightarrow> map_of (entries_slots 0 cs) = lookup_slots cs"
  shows "map_of (slot_entries i d c) K =
     (if K mod 32 = i then slot_get (Node d c s) (K div 32) else None)"
proof -
  let ?sh = "case c of None \<Rightarrow> []
              | Some cs \<Rightarrow> map (\<lambda>(k, v). (shift_key i k, v)) (entries_slots 0 cs)"
  have split: "map_of (slot_entries i d c) K =
      (case (if K = i then d else None) of Some v \<Rightarrow> Some v
       | None \<Rightarrow> map_of ?sh K)"
    by (cases d) (simp_all add: slot_entries_def map_add_def split: option.splits)
  show ?thesis
  proof (cases "K mod 32 = i \<and> K div 32 \<noteq> 0")
    case True
    have K: "shift_key i (K div 32 - 1) = K"
      using shift_key_decomp [of K] True by simp
    have sh: "map_of ?sh (shift_key i (K div 32 - 1)) =
            (case c of None \<Rightarrow> None | Some cs \<Rightarrow> lookup_slots cs (K div 32 - 1))"
      by (cases c) (simp_all add: map_of_shift sub)
    have "K \<noteq> i" using True i by auto
    then show ?thesis
      using True sh unfolding K split
      by (simp add: slot_get_def split: option.splits)
  next
    case False
    then have "map_of ?sh K = None"
      using map_of_shift_other [OF i, of K] by (cases c) auto
    moreover have "K mod 32 = i \<Longrightarrow> K div 32 = 0 \<Longrightarrow> K = i"
      by (rule digits_zero)
    moreover have "K = i \<Longrightarrow> K mod 32 = i \<and> K div 32 = 0"
      using i by simp
    ultimately show ?thesis
      using False unfolding split by (auto simp: slot_get_def split: option.splits)
  qed
qed

lemma map_of_entries_slots:
  "wf_slots ns \<Longrightarrow> i + length ns \<le> 32 \<Longrightarrow>
   map_of (entries_slots i ns) K =
     (if i \<le> K mod 32 \<and> K mod 32 < i + length ns
      then slot_get (ns ! (K mod 32 - i)) (K div 32) else None)"
proof (induction i ns arbitrary: K rule: entries_slots.induct)
  case (1 i)
  then show ?case by auto
next
  case (2 i d c s rest)
  have i: "i < 32" using "2.prems" by simp
  have rest: "map_of (entries_slots (Suc i) rest) K =
     (if Suc i \<le> K mod 32 \<and> K mod 32 < Suc i + length rest
      then slot_get (rest ! (K mod 32 - Suc i)) (K div 32) else None)"
    using "2.IH"(2) "2.prems" by simp
  have sub: "\<And>cs. c = Some cs \<Longrightarrow> map_of (entries_slots 0 cs) = lookup_slots cs"
  proof -
    fix cs assume c: "c = Some cs"
    have "wf_slots cs" "length cs = 32" using "2.prems" c by simp_all
    then show "map_of (entries_slots 0 cs) = lookup_slots cs"
      using "2.IH"(1) [OF c] by (intro ext) (simp add: lookup_slots_slot)
  qed
  have slot: "map_of (slot_entries i d c) K =
     (if K mod 32 = i then slot_get (Node d c s) (K div 32) else None)"
    by (rule map_of_slot_entries [OF i sub])
  show ?case
  proof (cases "K mod 32 = i")
    case True
    then show ?thesis
      unfolding entries_slots_Cons using slot rest
      by (simp add: map_add_def split: option.splits)
  next
    case False
    have idx: "Suc i \<le> K mod 32 \<Longrightarrow> K mod 32 - i = Suc (K mod 32 - Suc i)"
      by arith
    show ?thesis
      unfolding entries_slots_Cons using slot rest False idx
      by (auto simp: map_add_def split: option.splits)
  qed
qed

lemma map_of_entries:
  "wf_slots ns \<Longrightarrow> length ns = 32 \<Longrightarrow> map_of (entries_slots 0 ns) = lookup_slots ns"
  by (rule ext) (simp add: map_of_entries_slots lookup_slots_slot)


lemma entries_keys_mod:
  "i + length ns \<le> 32 \<Longrightarrow> (k, v) \<in> set (entries_slots i ns) \<Longrightarrow>
   i \<le> k mod 32 \<and> k mod 32 < i + length ns"
proof (induction i ns rule: entries_slots.induct)
  case (1 i)
  then show ?case by simp
next
  case (2 i d c s rest)
  have i: "i < 32" using "2.prems" by simp
  from "2.prems"(2) consider
      (data) "k = i"
    | (sub) cs k' where "c = Some cs" "k = shift_key i k'"
    | (rest) "(k, v) \<in> set (entries_slots (Suc i) rest)"
    by (auto split: option.splits)
  then show ?case
  proof cases
    case data then show ?thesis using i by simp
  next
    case sub then show ?thesis using i by (simp add: shift_key_mod)
  next
    case rest then show ?thesis using "2.IH"(2) "2.prems"(1) by simp
  qed
qed

lemma map_fst_shift:
  "map fst (map (\<lambda>(k, v). (shift_key i k, v)) es) = map (shift_key i) (map fst es)"
  by (induction es) auto

lemma distinct_shift:
  "distinct (map fst es) \<Longrightarrow> distinct (map fst (map (\<lambda>(k, v). (shift_key i k, v)) es))"
  unfolding map_fst_shift distinct_map [of "shift_key i"]
  by (auto intro: inj_onI dest: shift_key_inj)

lemma distinct_entries_slots:
  "wf_slots ns \<Longrightarrow> i + length ns \<le> 32 \<Longrightarrow> distinct (map fst (entries_slots i ns))"
proof (induction i ns rule: entries_slots.induct)
  case (1 i)
  then show ?case by simp
next
  case (2 i d c s rest)
  have i: "i < 32" using "2.prems" by simp
  let ?sh = "case c of None \<Rightarrow> []
              | Some cs \<Rightarrow> map (\<lambda>(k, v). (shift_key i k, v)) (entries_slots 0 cs)"
  have sh: "distinct (map fst ?sh)"
  proof (cases c)
    case None then show ?thesis by simp
  next
    case (Some cs)
    then have "distinct (map fst (entries_slots 0 cs))"
      using "2.IH"(1) "2.prems" by simp
    then show ?thesis using Some distinct_shift [of "entries_slots 0 cs" i] by simp
  qed
  have shk: "\<And>k. k \<in> fst ` set ?sh \<Longrightarrow> k mod 32 = i \<and> k div 32 \<noteq> 0"
    using i by (cases c) (auto simp: shift_key_mod shift_key_div)
  have rest: "distinct (map fst (entries_slots (Suc i) rest))"
    using "2.IH"(2) "2.prems" by simp
  have restk: "\<And>k. k \<in> fst ` set (entries_slots (Suc i) rest) \<Longrightarrow> k mod 32 \<noteq> i"
    using entries_keys_mod [of "Suc i" rest] "2.prems"(2) by fastforce
  have "i \<notin> fst ` set ?sh"
    by (cases c) (auto simp: shift_key_def)
  then have slot: "distinct (map fst (slot_entries i d c))"
    using sh by (cases d) (simp_all add: slot_entries_def)
  have slotk: "\<And>k. k \<in> fst ` set (slot_entries i d c) \<Longrightarrow> k mod 32 = i"
    using shk i by (cases d) (auto simp: slot_entries_def)
  have "fst ` set (slot_entries i d c) \<inter> fst ` set (entries_slots (Suc i) rest) = {}"
    using slotk restk by blast
  then show ?case
    unfolding entries_slots_Cons using slot rest by simp
qed

text \<open>The number of entries is the number of keys that are found.\<close>

lemma dom_lookup_slots:
  "wf_slots ns \<Longrightarrow> length ns = 32 \<Longrightarrow> dom (lookup_slots ns) = fst ` set (entries_slots 0 ns)"
  using map_of_entries [of ns] by (simp add: dom_map_of_conv_image_fst [symmetric])

lemma finite_dom_lookup_slots:
  "wf_slots ns \<Longrightarrow> length ns = 32 \<Longrightarrow> finite (dom (lookup_slots ns))"
  by (simp add: dom_lookup_slots)

lemma length_entries_card:
  "wf_slots ns \<Longrightarrow> length ns = 32 \<Longrightarrow>
   length (entries_slots 0 ns) = card (dom (lookup_slots ns))"
proof -
  assume wf: "wf_slots ns" and len: "length ns = 32"
  have "distinct (map fst (entries_slots 0 ns))"
    using distinct_entries_slots [OF wf, of 0] len by simp
  then have "card (set (map fst (entries_slots 0 ns))) = length (map fst (entries_slots 0 ns))"
    by (rule distinct_card)
  then show ?thesis using dom_lookup_slots [OF wf len] by simp
qed

section \<open>Lookup follows the digits of the key\<close>

declare IMAP_add.simps [simp del] IMAP_get.simps [simp del] IMAP_pop.simps [simp del]

lemma unat_digit: "unat (key mod 32 :: u64) = unat key mod 32"
  by (simp add: unat_mod)

lemma unat_rest: "unat (key div 32 :: u64) = unat key div 32"
  by (simp add: unat_div)

lemma rest_zero: "(key div 32 = (0 :: u64)) = (unat key div 32 = 0)"
  by (metis unat_rest unat_eq_0)

lemma unat_rest_pred: "key div 32 \<noteq> (0 :: u64) \<Longrightarrow> unat (key div 32 - 1) = unat key div 32 - 1"
  by (simp add: unat_minus_one unat_rest)

lemma digit_less: "unat (key mod 32 :: u64) < 32"
  by (simp add: unat_digit)

lemma IMAP_get_lookup:
  "nodes node = Some ns \<Longrightarrow> IMAP_get node key = lookup_slots ns (unat key)"
proof (induction node key arbitrary: ns rule: IMAP_get.induct)
  case (1 node key)
  show ?case
  proof (cases "key div 32 = 0")
    case True
    then show ?thesis
      using "1.prems"
      by (simp add: IMAP_get.simps [of node key] lookup_slots_slot slot_get_def
          unat_digit rest_zero)
  next
    case False
    let ?nd = "ns ! unat (key mod 32)"
    show ?thesis
    proof (cases "nodes ?nd")
      case None
      then show ?thesis
        using "1.prems" False
        by (simp add: IMAP_get.simps [of node key] lookup_slots_slot slot_get_def
            unat_digit rest_zero)
    next
      case (Some cs)
      have "IMAP_get ?nd (key div 32 - 1) = lookup_slots cs (unat (key div 32 - 1))"
        using "1.IH" [OF "1.prems" refl False _ Some] Some by simp
      then show ?thesis
        using "1.prems" False Some
        by (simp add: IMAP_get.simps [of node key] lookup_slots_slot [of ns] slot_get_def
            unat_digit rest_zero unat_rest_pred)
    qed
  qed
qed

lemma imap_get_lookup: "imap_get m key = lookup_slots (nodes_m m) (unat key)"
proof (cases "key div 32 = 0")
  case True
  then show ?thesis
    by (simp add: imap_get_def lookup_slots_slot slot_get_def unat_digit rest_zero)
next
  case False
  show ?thesis
  proof (cases "nodes (nodes_m m ! unat (key mod 32))")
    case None
    then show ?thesis using False
      by (simp add: imap_get_def lookup_slots_slot slot_get_def unat_digit rest_zero)
  next
    case (Some cs)
    then show ?thesis using False IMAP_get_lookup [OF Some, of "key div 32 - 1"]
      by (simp add: imap_get_def lookup_slots_slot [of "nodes_m m"] slot_get_def unat_digit
          rest_zero unat_rest_pred)
  qed
qed

text \<open>The invariant and the abstraction function of a single node.\<close>

definition wf_node :: "'a imap_node \<Rightarrow> bool" where
  "wf_node nd = wf_slots [nd]"

definition lookup_node :: "'a imap_node \<Rightarrow> nat \<Rightarrow> 'a option" where
  "lookup_node nd = (case nodes nd of None \<Rightarrow> Map.empty | Some cs \<Rightarrow> lookup_slots cs)"

lemma wf_node_Node:
  "wf_node (Node d c s) =
     (case c of
        None \<Rightarrow> s = 0
      | Some cs \<Rightarrow> length cs = 32 \<and> wf_slots cs \<and> unat s = length (entries_slots 0 cs))"
  by (simp add: wf_node_def)

lemma wf_node_sel:
  "wf_node nd =
     (case nodes nd of
        None \<Rightarrow> size_n nd = 0
      | Some cs \<Rightarrow> length cs = 32 \<and> wf_slots cs \<and> unat (size_n nd) = length (entries_slots 0 cs))"
  by (cases nd) (auto simp: wf_node_Node split: option.splits)

lemma wf_slots_Cons: "wf_slots (nd # rest) = (wf_node nd \<and> wf_slots rest)"
  by (cases nd) (simp add: wf_node_def)

lemma wf_slots_all: "wf_slots ns = (\<forall>n \<in> set ns. wf_node n)"
  by (induction ns) (simp_all add: wf_slots_Cons)

lemma wf_slots_nth: "wf_slots ns \<Longrightarrow> i < length ns \<Longrightarrow> wf_node (ns ! i)"
  by (simp add: wf_slots_all)

lemma wf_slots_update: "wf_slots ns \<Longrightarrow> wf_node nd \<Longrightarrow> wf_slots (ns[i := nd])"
  unfolding wf_slots_all using set_update_subset_insert [of ns i nd] by auto

lemma entries_slots_zeroed: "entries_slots i (replicate n zero_node) = []"
  by (induction n arbitrary: i) (simp_all add: zero_node_def)

lemma wf_slots_zeroed: "wf_slots (replicate n zero_node)"
  by (induction n) (simp_all add: zero_node_def)

lemma slot_get_Suc: "slot_get nd (Suc q) = lookup_node nd q"
  by (simp add: slot_get_def lookup_node_def split: option.splits)

lemma slot_get_0: "slot_get nd 0 = data nd"
  by (simp add: slot_get_def)

lemma lookup_slots_update:
  "i < length ns \<Longrightarrow>
   lookup_slots (ns[i := nd]) K =
     (if K mod 32 = i then slot_get nd (K div 32) else lookup_slots ns K)"
  by (simp add: lookup_slots_slot)

lemma lookup_node_size0: "wf_node nd \<Longrightarrow> size_n nd = 0 \<Longrightarrow> lookup_node nd = Map.empty"
proof -
  assume wf: "wf_node nd" and z: "size_n nd = 0"
  show ?thesis
  proof (cases "nodes nd")
    case None then show ?thesis by (simp add: lookup_node_def)
  next
    case (Some cs)
    then have "length cs = 32" "wf_slots cs" "entries_slots 0 cs = []"
      using wf z by (simp_all add: wf_node_sel)
    then show ?thesis using Some map_of_entries [of cs] by (simp add: lookup_node_def)
  qed
qed

text \<open>Keys stored below a slot are smaller than the keys they stand for in the parent.\<close>

lemma lookup_node_in_parent:
  "i < 32 \<Longrightarrow> lookup_node (ns ! i) k = lookup_slots ns (shift_key i k)"
  by (simp add: lookup_slots_slot shift_key_mod shift_key_div slot_get_Suc)

lemma child_bound:
  assumes "i < 32" and "\<forall>k \<in> dom (lookup_slots ns). k < B"
  shows "\<forall>k \<in> dom (lookup_node (ns ! i)). k < B"
proof
  fix k assume "k \<in> dom (lookup_node (ns ! i))"
  then have "shift_key i k \<in> dom (lookup_slots ns)"
    using lookup_node_in_parent [OF assms(1), of ns k] by (simp add: dom_def)
  then have "shift_key i k < B" using assms(2) by blast
  then show "k < B" by (simp add: shift_key_def)
qed

section \<open>Insertion\<close>

text \<open>
  \<open>IMAP_add_in\<close> is the part of \<open>IMAP_add\<close> after the children array is in place; it
  serves the proofs only, and \<open>IMAP_add_unfold\<close> states \<open>IMAP_add\<close> through it.
\<close>

definition IMAP_add_in ::
  "'a imap_node \<Rightarrow> 'a imap_node list \<Rightarrow> u64 \<Rightarrow> 'a \<Rightarrow> bool list \<Rightarrow>
   (int \<times> 'a imap_node \<times> bool list) option" where
  "IMAP_add_in node ns key d al1 =
     (if key div 32 = 0
      then
        (let nd = ns ! unat (key mod 32);
             rc = (if data nd = None then 1 else 0)
         in Some (rc,
                  Node (data node)
                    (Some (ns[unat (key mod 32) := Node (Some d) (nodes nd) (size_n nd)]))
                    (size_n node + word_of_int rc),
                  al1))
      else
        (case IMAP_add (ns ! unat (key mod 32)) (key div 32 - 1) d al1 of
           None \<Rightarrow> None
         | Some (rc, nd', al2) \<Rightarrow>
             Some (rc,
                   Node (data node)
                     (Some (ns[unat (key mod 32) := nd']))
                     (if rc > 0 then size_n node + 1 else size_n node),
                   al2)))"

lemma IMAP_add_unfold:
  "IMAP_add node key d al =
     (if size_n node = 0
      then (case calloc al of
              (ok, al1) \<Rightarrow>
                if ok then IMAP_add_in node (replicate IMAP_NODE_SZ zero_node) key d al1
                else Some (- 1, Node (data node) None (size_n node), al1))
      else (case nodes node of
              None \<Rightarrow> None
            | Some ns \<Rightarrow> IMAP_add_in node ns key d al))"
  by (simp add: IMAP_add.simps [of node key d al] IMAP_add_in_def Let_def
      split: prod.splits option.splits)

text \<open>
  What \<open>IMAP_add\<close> achieves on a node: on failure (-1) nothing can be looked up that
  could not before; otherwise the key is bound to the value and the return code is 1
  exactly for a key that was not bound.
\<close>

definition add_post :: "'a imap_node \<Rightarrow> u64 \<Rightarrow> 'a \<Rightarrow> int \<Rightarrow> 'a imap_node \<Rightarrow> bool" where
  "add_post node key d rc node' =
     (data node' = data node \<and> wf_node node' \<and>
      (if rc = - 1 then lookup_node node' = lookup_node node
       else rc = (if lookup_node node (unat key) = None then 1 else 0) \<and>
            lookup_node node' = (lookup_node node)(unat key \<mapsto> d)))"

lemma lookup_slots_update_data:
  assumes i: "i < 32" and len: "length ns = 32"
  shows "lookup_slots (ns[i := Node x (nodes (ns ! i)) (size_n (ns ! i))]) =
         (lookup_slots ns)(i := x)"
proof
  fix K
  show "lookup_slots (ns[i := Node x (nodes (ns ! i)) (size_n (ns ! i))]) K =
        ((lookup_slots ns)(i := x)) K"
  proof (cases "K mod 32 = i")
    case True
    show ?thesis
    proof (cases "K div 32 = 0")
      case z: True
      then have "K = i" using True by (rule digits_zero)
      then show ?thesis using i len z by (simp add: lookup_slots_update slot_get_def)
    next
      case False
      then have "K \<noteq> i" using i by auto
      then show ?thesis
        using i len True False
        by (simp add: lookup_slots_update lookup_slots_slot [of ns] slot_get_def)
    qed
  next
    case False
    then have "K \<noteq> i" using i by auto
    then show ?thesis using i len False by (simp add: lookup_slots_update)
  qed
qed

lemma lookup_slots_update_child:
  assumes i: "i < 32" and len: "length ns = 32"
    and dat: "data nd' = data (ns ! i)"
    and sub: "lookup_node nd' = (lookup_node (ns ! i))(q := x)"
  shows "lookup_slots (ns[i := nd']) = (lookup_slots ns)(shift_key i q := x)"
proof
  fix K
  show "lookup_slots (ns[i := nd']) K = ((lookup_slots ns)(shift_key i q := x)) K"
  proof (cases "K mod 32 = i")
    case True
    show ?thesis
    proof (cases "K div 32")
      case 0
      then have "K \<noteq> shift_key i q" using i by (auto simp: shift_key_div)
      then show ?thesis
        using i len True 0 dat
        by (simp add: lookup_slots_update lookup_slots_slot [of ns] slot_get_0)
    next
      case (Suc r)
      have K: "K = shift_key i r"
        using shift_key_decomp [of K] True Suc by simp
      have "(shift_key i r = shift_key i q) = (r = q)"
        by (auto dest: shift_key_inj)
      then show ?thesis
        using i len True Suc sub unfolding K
        by (simp add: lookup_slots_update lookup_slots_slot [of ns] slot_get_Suc
            shift_key_mod shift_key_div)
    qed
  next
    case False
    then have "K \<noteq> shift_key i q" using i by (auto simp: shift_key_mod)
    then show ?thesis using i len False by (simp add: lookup_slots_update)
  qed
qed

lemma lookup_slots_update_same:
  assumes i: "i < 32" and len: "length ns = 32"
    and dat: "data nd' = data (ns ! i)"
    and sub: "lookup_node nd' = lookup_node (ns ! i)"
  shows "lookup_slots (ns[i := nd']) = lookup_slots ns"
proof
  fix K
  show "lookup_slots (ns[i := nd']) K = lookup_slots ns K"
    using i len dat sub
    by (cases "K div 32")
       (simp_all add: lookup_slots_update lookup_slots_slot [of ns] slot_get_0 slot_get_Suc)
qed

text \<open>A \<open>size_t\<close> counter follows the number of entries as long as every key is below
  \<open>2 ^ 64 - 1\<close>: there are not enough such keys to make it wrap.\<close>

lemma card_bounded_keys:
  assumes "\<forall>k \<in> A. k < (B :: nat)"
  shows "card A \<le> B"
proof -
  have "A \<subseteq> {..<B}" using assms by auto
  then have "card A \<le> card {..<B}" by (intro card_mono) simp_all
  then show ?thesis by simp
qed

lemma size_after_insert:
  assumes wf: "wf_slots ns" "length ns = 32" and wf': "wf_slots ns'" "length ns' = 32"
    and upd: "lookup_slots ns' = (lookup_slots ns)(k \<mapsto> d)"
    and bound: "\<forall>k \<in> dom (lookup_slots ns). k < 2 ^ 64 - 1" and k: "k < 2 ^ 64 - 1"
    and sz: "unat (s :: u64) = length (entries_slots 0 ns)"
  shows "unat (s + (if lookup_slots ns k = None then 1 else 0)) = length (entries_slots 0 ns')"
proof -
  have fin: "finite (dom (lookup_slots ns))" using wf by (rule finite_dom_lookup_slots)
  have c: "unat s = card (dom (lookup_slots ns))"
    using sz length_entries_card [OF wf] by simp
  have c': "length (entries_slots 0 ns') = card (insert k (dom (lookup_slots ns)))"
    using length_entries_card [OF wf'] upd by simp
  show ?thesis
  proof (cases "lookup_slots ns k")
    case None
    then have notin: "k \<notin> dom (lookup_slots ns)" by (simp add: dom_def)
    have "card (insert k (dom (lookup_slots ns))) \<le> 2 ^ 64 - 1"
      using bound k by (intro card_bounded_keys) auto
    then have "unat s + 1 < 2 ^ 64" using notin fin c by simp
    then have "unat (s + 1) = unat s + 1"
      using unat_add_lem [of s 1] by simp
    then show ?thesis using None notin fin c c' by simp
  next
    case (Some v)
    then have "k \<in> dom (lookup_slots ns)" by (simp add: dom_def)
    then show ?thesis using Some c c' by (simp add: insert_absorb)
  qed
qed

lemma wf_node_children:
  "wf_slots ns \<Longrightarrow> length ns = 32 \<Longrightarrow> unat s = length (entries_slots 0 ns) \<Longrightarrow>
   wf_node (Node d (Some ns) s)"
  by (simp add: wf_node_Node)

lemma wf_node_set_data: "wf_node nd \<Longrightarrow> wf_node (Node d (nodes nd) (size_n nd))"
  by (cases nd) (simp add: wf_node_Node)

lemma lookup_node_children: "lookup_node (Node d (Some ns) s) = lookup_slots ns"
  by (simp add: lookup_node_def)

lemma IMAP_add_in_correct:
  assumes wf: "wf_slots ns" "length ns = 32"
    and sz: "unat (size_n node) = length (entries_slots 0 ns)"
    and bound: "\<forall>k \<in> dom (lookup_slots ns). k < 2 ^ 64 - 1"
    and key: "unat key < 2 ^ 64 - 1"
    and IH: "\<And>al. key div 32 \<noteq> 0 \<Longrightarrow>
       \<exists>rc nd' al'. IMAP_add (ns ! unat (key mod 32)) (key div 32 - 1) d al = Some (rc, nd', al') \<and>
         add_post (ns ! unat (key mod 32)) (key div 32 - 1) d rc nd'"
  shows "\<exists>rc node' al'. IMAP_add_in node ns key d al1 = Some (rc, node', al') \<and>
           data node' = data node \<and> wf_node node' \<and>
           (if rc = - 1 then lookup_node node' = lookup_slots ns
            else rc = (if lookup_slots ns (unat key) = None then 1 else 0) \<and>
                 lookup_node node' = (lookup_slots ns)(unat key \<mapsto> d))"
proof (cases "key div 32 = 0")
  case True
  let ?i = "unat (key mod 32)"
  let ?nd = "ns ! ?i"
  let ?ns' = "ns[?i := Node (Some d) (nodes ?nd) (size_n ?nd)]"
  have i: "?i < 32" by (rule digit_less)
  have ki: "unat key = ?i"
    using True by (simp add: rest_zero unat_digit div_eq_0_iff)
  have look: "lookup_slots ns (unat key) = data ?nd"
    using True by (simp add: lookup_slots_slot slot_get_def rest_zero unat_digit)
  have upd: "lookup_slots ?ns' = (lookup_slots ns)(unat key \<mapsto> d)"
    unfolding ki by (rule lookup_slots_update_data [OF i wf(2)])
  have wf': "wf_slots ?ns'" "length ?ns' = 32"
    using wf i by (simp_all add: wf_slots_update wf_node_set_data wf_slots_nth)
  have "unat (size_n node + (if lookup_slots ns (unat key) = None then 1 else 0)) =
        length (entries_slots 0 ?ns')"
    by (rule size_after_insert [OF wf wf' upd bound key sz])
  then have "wf_node (Node (data node) (Some ?ns')
      (size_n node + word_of_int (if data ?nd = None then 1 else 0)))"
    using wf' look by (intro wf_node_children) (auto split: if_splits)
  then show ?thesis
    using True upd look
    by (simp add: IMAP_add_in_def Let_def lookup_node_children)
next
  case False
  let ?i = "unat (key mod 32)"
  let ?nd = "ns ! ?i"
  let ?q = "unat (key div 32 - 1)"
  have i: "?i < 32" by (rule digit_less)
  have q: "?q = unat key div 32 - 1" using False by (rule unat_rest_pred)
  have nz: "unat key div 32 \<noteq> 0" using False by (simp add: rest_zero)
  have kq: "shift_key ?i ?q = unat key"
    unfolding q unat_digit by (rule shift_key_decomp [OF nz])
  have look: "lookup_slots ns (unat key) = lookup_node ?nd ?q"
    using lookup_node_in_parent [OF i, of ns ?q] kq by simp
  obtain rc nd' al' where
    call: "IMAP_add ?nd (key div 32 - 1) d al1 = Some (rc, nd', al')" and
    post: "add_post ?nd (key div 32 - 1) d rc nd'"
    using IH [OF False, of al1] by blast
  let ?ns' = "ns[?i := nd']"
  have dat: "data nd' = data ?nd" and wfn: "wf_node nd'"
    using post by (simp_all add: add_post_def)
  have wf': "wf_slots ?ns'" "length ?ns' = 32"
    using wf wfn by (simp_all add: wf_slots_update)
  have res: "IMAP_add_in node ns key d al1 =
      Some (rc, Node (data node) (Some ?ns') (if rc > 0 then size_n node + 1 else size_n node), al')"
    using False call by (simp add: IMAP_add_in_def)
  show ?thesis
  proof (cases "rc = - 1")
    case True
    have "lookup_node nd' = lookup_node ?nd"
      using post True by (simp add: add_post_def)
    then have same: "lookup_slots ?ns' = lookup_slots ns"
      by (rule lookup_slots_update_same [OF i wf(2) dat])
    have "length (entries_slots 0 ?ns') = length (entries_slots 0 ns)"
      using length_entries_card [OF wf] length_entries_card [OF wf'] same by simp
    then have "wf_node (Node (data node) (Some ?ns') (size_n node))"
      using wf' sz by (intro wf_node_children) simp_all
    then show ?thesis
      using res True same by (simp add: lookup_node_children)
  next
    case False
    have rc: "rc = (if lookup_node ?nd ?q = None then 1 else 0)"
      and sub: "lookup_node nd' = (lookup_node ?nd)(?q \<mapsto> d)"
      using post False by (simp_all add: add_post_def)
    have upd: "lookup_slots ?ns' = (lookup_slots ns)(unat key \<mapsto> d)"
      using lookup_slots_update_child [OF i wf(2) dat sub] kq by simp
    have "unat (size_n node + (if lookup_slots ns (unat key) = None then 1 else 0)) =
        length (entries_slots 0 ?ns')"
      by (rule size_after_insert [OF wf wf' upd bound key sz])
    then have "wf_node (Node (data node) (Some ?ns')
        (if rc > 0 then size_n node + 1 else size_n node))"
      using wf' rc look by (intro wf_node_children) (auto split: if_splits)
    then show ?thesis
      using res False upd rc look by (simp add: lookup_node_children)
  qed
qed

lemma IMAP_add_correct:
  assumes "wf_node node" "\<forall>k \<in> dom (lookup_node node). k < 2 ^ 64 - 1" "unat key < 2 ^ 64 - 1"
  shows "\<exists>rc node' al'. IMAP_add node key d al = Some (rc, node', al') \<and>
           add_post node key d rc node'"
  using assms
proof (induction "unat key" arbitrary: node key al rule: less_induct)
  case less
  note wf = less.prems(1) and bound = less.prems(2) and key = less.prems(3)
  show ?case
  proof (cases "size_n node = 0")
    case True
    have empty: "lookup_node node = Map.empty"
      using wf True by (rule lookup_node_size0)
    obtain ok al1 where c: "calloc al = (ok, al1)" by (cases "calloc al")
    show ?thesis
    proof (cases ok)
      case False
      then have "IMAP_add node key d al = Some (- 1, Node (data node) None (size_n node), al1)"
        using True c by (simp add: IMAP_add_unfold)
      moreover have "add_post node key d (- 1) (Node (data node) None (size_n node))"
        using True empty by (simp add: add_post_def wf_node_Node lookup_node_def)
      ultimately show ?thesis by blast
    next
      case ok: True
      let ?ns = "replicate IMAP_NODE_SZ zero_node :: 'a imap_node list"
      have wfz: "wf_slots ?ns" "length ?ns = 32"
        by (simp_all add: wf_slots_zeroed IMAP_NODE_SZ_def)
      have ez: "entries_slots 0 ?ns = []" by (rule entries_slots_zeroed)
      have lz: "lookup_slots ?ns = Map.empty"
        using map_of_entries [OF wfz] ez by simp
      have szz: "unat (size_n node) = length (entries_slots 0 ?ns)"
        using True ez by simp
      have bz: "\<forall>k \<in> dom (lookup_slots ?ns). k < 2 ^ 64 - 1" using lz by simp
      have IH: "\<And>al. key div 32 \<noteq> 0 \<Longrightarrow>
         \<exists>rc nd' al'. IMAP_add (?ns ! unat (key mod 32)) (key div 32 - 1) d al = Some (rc, nd', al') \<and>
           add_post (?ns ! unat (key mod 32)) (key div 32 - 1) d rc nd'"
      proof -
        fix al' assume nz: "key div 32 \<noteq> 0"
        have lt: "unat (key div 32 - 1) < unat key" using nz by (rule key_descent)
        have "wf_node (?ns ! unat (key mod 32))"
          using wfz digit_less [of key] by (intro wf_slots_nth) simp_all
        moreover have "\<forall>k \<in> dom (lookup_node (?ns ! unat (key mod 32))). k < 2 ^ 64 - 1"
          using child_bound [OF digit_less bz] .
        moreover have "unat (key div 32 - 1) < 2 ^ 64 - 1" using lt key by simp
        ultimately show "\<exists>rc nd' ala. IMAP_add (?ns ! unat (key mod 32)) (key div 32 - 1) d al' =
            Some (rc, nd', ala) \<and> add_post (?ns ! unat (key mod 32)) (key div 32 - 1) d rc nd'"
          using less.hyps [OF lt] by blast
      qed
      have unf: "IMAP_add node key d al = IMAP_add_in node ?ns key d al1"
        using True c ok by (simp add: IMAP_add_unfold)
      obtain rc node' al' where
        r: "IMAP_add_in node ?ns key d al1 = Some (rc, node', al')" and
        p: "data node' = data node" "wf_node node'"
           "if rc = - 1 then lookup_node node' = lookup_slots ?ns
            else rc = (if lookup_slots ?ns (unat key) = None then 1 else 0) \<and>
                 lookup_node node' = (lookup_slots ?ns)(unat key \<mapsto> d)"
        using IMAP_add_in_correct [OF wfz szz bz key IH, of al1] by blast
      have "add_post node key d rc node'"
        unfolding add_post_def empty using p unfolding lz by simp
      then show ?thesis using unf r by simp
    qed
  next
    case False
    then obtain ns where ns: "nodes node = Some ns"
      using wf by (cases "nodes node") (simp_all add: wf_node_sel)
    have wfn: "wf_slots ns" "length ns = 32" and sz: "unat (size_n node) = length (entries_slots 0 ns)"
      using wf ns by (simp_all add: wf_node_sel)
    have ln: "lookup_node node = lookup_slots ns" using ns by (simp add: lookup_node_def)
    have b: "\<forall>k \<in> dom (lookup_slots ns). k < 2 ^ 64 - 1" using bound ln by simp
    have IH: "\<And>al. key div 32 \<noteq> 0 \<Longrightarrow>
       \<exists>rc nd' al'. IMAP_add (ns ! unat (key mod 32)) (key div 32 - 1) d al = Some (rc, nd', al') \<and>
         add_post (ns ! unat (key mod 32)) (key div 32 - 1) d rc nd'"
    proof -
      fix al' assume nz: "key div 32 \<noteq> 0"
      have lt: "unat (key div 32 - 1) < unat key" using nz by (rule key_descent)
      have "wf_node (ns ! unat (key mod 32))"
        using wfn digit_less [of key] by (intro wf_slots_nth) simp_all
      moreover have "\<forall>k \<in> dom (lookup_node (ns ! unat (key mod 32))). k < 2 ^ 64 - 1"
        using child_bound [OF digit_less b] .
      moreover have "unat (key div 32 - 1) < 2 ^ 64 - 1" using lt key by simp
      ultimately show "\<exists>rc nd' ala. IMAP_add (ns ! unat (key mod 32)) (key div 32 - 1) d al' =
          Some (rc, nd', ala) \<and> add_post (ns ! unat (key mod 32)) (key div 32 - 1) d rc nd'"
        using less.hyps [OF lt] by blast
    qed
    have unf: "IMAP_add node key d al = IMAP_add_in node ns key d al"
      using False ns by (simp add: IMAP_add_unfold)
    obtain rc node' al' where
      r: "IMAP_add_in node ns key d al = Some (rc, node', al')" and
      p: "data node' = data node" "wf_node node'"
         "if rc = - 1 then lookup_node node' = lookup_slots ns
          else rc = (if lookup_slots ns (unat key) = None then 1 else 0) \<and>
               lookup_node node' = (lookup_slots ns)(unat key \<mapsto> d)"
      using IMAP_add_in_correct [OF wfn sz b key IH, of al] by blast
    have "add_post node key d rc node'"
      unfolding add_post_def ln using p by simp
    then show ?thesis using unf r by simp
  qed
qed

text \<open>
  The representation invariant of a map: the top-level array has \<open>IMAP_NODE_SZ\<close> nodes,
  the nodes satisfy their invariant, and every stored key is a 64-bit key (no value sits
  deeper than a \<open>uint64_t\<close> can address). \<open>imap_new\<close> establishes it and \<open>imap_add\<close>
  (failing or not), \<open>imap_pop\<close> and \<open>imap_union_ref\<close> preserve it. \<open>len_ok\<close> says that \<open>len\<close>
  is the number of entries; it is kept apart because \<open>len\<close> is a \<open>size_t\<close> and the lookups
  do not depend on it.
\<close>

definition keys_fit :: "'a imap_node list \<Rightarrow> bool" where
  "keys_fit ns = (\<forall>k \<in> fst ` set (entries_slots 0 ns). k < 2 ^ 64)"

definition imap_inv :: "'a imap \<Rightarrow> bool" where
  "imap_inv m = (length (nodes_m m) = 32 \<and> wf_slots (nodes_m m) \<and> keys_fit (nodes_m m))"

definition len_ok :: "'a imap \<Rightarrow> bool" where
  "len_ok m = (unat (len m) = length (entries_slots 0 (nodes_m m)))"

lemma imap_inv_bound:
  "imap_inv m \<Longrightarrow> \<forall>k \<in> dom (lookup_slots (nodes_m m)). k < 2 ^ 64"
  by (simp add: imap_inv_def keys_fit_def dom_lookup_slots)

lemma imap_invI:
  "length ns = 32 \<Longrightarrow> wf_slots ns \<Longrightarrow> \<forall>k \<in> dom (lookup_slots ns). k < 2 ^ 64 \<Longrightarrow>
   imap_inv (Imap l ns)"
  by (simp add: imap_inv_def keys_fit_def dom_lookup_slots)

lemma top_child_bound:
  assumes "i < 32" and "\<forall>k \<in> dom (lookup_slots ns). k < 2 ^ 64"
  shows "\<forall>k \<in> dom (lookup_node (ns ! i)). k < 2 ^ 64 - 1"
proof
  fix k assume "k \<in> dom (lookup_node (ns ! i))"
  then have "shift_key i k \<in> dom (lookup_slots ns)"
    using lookup_node_in_parent [OF assms(1), of ns k] by (simp add: dom_def)
  then have "shift_key i k < 2 ^ 64" using assms(2) by blast
  then show "k < 2 ^ 64 - 1" by (simp add: shift_key_def)
qed

lemma unat_inj_key: "(unat (k :: u64) = unat k') = (k = k')"
  by (simp add: word_unat_eq_iff)

definition imap_add_post :: "'a imap \<Rightarrow> u64 \<Rightarrow> 'a \<Rightarrow> int \<Rightarrow> 'a imap \<Rightarrow> bool" where
  "imap_add_post m key d rc m' =
     (imap_inv m' \<and>
      (if rc = - 1
       then key div 32 \<noteq> 0 \<and> len m' = len m \<and>
            lookup_slots (nodes_m m') = lookup_slots (nodes_m m)
       else rc = (if key div 32 \<noteq> 0 \<and> imap_get m key = None then 1 else 0) \<and>
            len m' = (if imap_get m key = None then len m + 1 else len m) \<and>
            lookup_slots (nodes_m m') = (lookup_slots (nodes_m m))(unat key \<mapsto> d)))"

lemma imap_add_correct:
  assumes inv: "imap_inv m"
  shows "\<exists>rc m' al'. imap_add m key d al = Some (rc, m', al') \<and> imap_add_post m key d rc m'"
proof -
  let ?ns = "nodes_m m"
  let ?i = "unat (key mod 32)"
  let ?nd = "?ns ! ?i"
  have wf: "wf_slots ?ns" "length ?ns = 32" using inv by (simp_all add: imap_inv_def)
  have bound: "\<forall>k \<in> dom (lookup_slots ?ns). k < 2 ^ 64" using inv by (rule imap_inv_bound)
  have i: "?i < 32" by (rule digit_less)
  have klt: "unat key < 2 ^ 64" using unsigned_less [of key] by simp
  have inv': "\<And>ns' l. wf_slots ns' \<Longrightarrow> length ns' = 32 \<Longrightarrow>
      lookup_slots ns' = (lookup_slots ?ns)(unat key \<mapsto> d) \<Longrightarrow> imap_inv (Imap l ns')"
    using bound klt by (intro imap_invI) auto
  show ?thesis
  proof (cases "key div 32 = 0")
    case True
    let ?ns' = "?ns[?i := Node (Some d) (nodes ?nd) (size_n ?nd)]"
    have ki: "unat key = ?i"
      using True by (simp add: rest_zero unat_digit div_eq_0_iff)
    have look: "imap_get m key = data ?nd"
      using True by (simp add: imap_get_def)
    have upd: "lookup_slots ?ns' = (lookup_slots ?ns)(unat key \<mapsto> d)"
      unfolding ki by (rule lookup_slots_update_data [OF i wf(2)])
    have wf': "wf_slots ?ns'" "length ?ns' = 32"
      using wf i by (simp_all add: wf_slots_update wf_node_set_data wf_slots_nth)
    have "imap_add m key d al =
        Some (0, Imap (if data ?nd = None then len m + 1 else len m) ?ns', al)"
      using True by (simp add: imap_add_def Let_def)
    moreover have "imap_add_post m key d 0 (Imap (if data ?nd = None then len m + 1 else len m) ?ns')"
      using True look upd inv' [OF wf' upd] by (simp add: imap_add_post_def)
    ultimately show ?thesis by blast
  next
    case False
    let ?q = "unat (key div 32 - 1)"
    have q: "?q = unat key div 32 - 1" using False by (rule unat_rest_pred)
    have nz: "unat key div 32 \<noteq> 0" using False by (simp add: rest_zero)
    have kq: "shift_key ?i ?q = unat key"
      unfolding q unat_digit by (rule shift_key_decomp [OF nz])
    have look: "imap_get m key = lookup_node ?nd ?q"
      using lookup_node_in_parent [OF i, of ?ns ?q] kq by (simp add: imap_get_lookup)
    have "wf_node ?nd" using wf i by (intro wf_slots_nth) simp_all
    moreover have "\<forall>k \<in> dom (lookup_node ?nd). k < 2 ^ 64 - 1"
      by (rule top_child_bound [OF i bound])
    moreover have "?q < 2 ^ 64 - 1"
      using key_descent [OF False] klt by simp
    ultimately obtain rc nd' al' where
      call: "IMAP_add ?nd (key div 32 - 1) d al = Some (rc, nd', al')" and
      post: "add_post ?nd (key div 32 - 1) d rc nd'"
      using IMAP_add_correct [of ?nd "key div 32 - 1" d al] by blast
    let ?ns' = "?ns[?i := nd']"
    have dat: "data nd' = data ?nd" and wfn: "wf_node nd'"
      using post by (simp_all add: add_post_def)
    have wf': "wf_slots ?ns'" "length ?ns' = 32"
      using wf wfn by (simp_all add: wf_slots_update)
    have res: "imap_add m key d al =
        Some (rc, Imap (if rc > 0 then len m + 1 else len m) ?ns', al')"
      using False call by (simp add: imap_add_def Let_def)
    show ?thesis
    proof (cases "rc = - 1")
      case True
      have "lookup_node nd' = lookup_node ?nd"
        using post True by (simp add: add_post_def)
      then have same: "lookup_slots ?ns' = lookup_slots ?ns"
        by (rule lookup_slots_update_same [OF i wf(2) dat])
      have "imap_inv (Imap (len m) ?ns')"
        using wf' bound same by (intro imap_invI) simp_all
      then show ?thesis
        using res True same False by (simp add: imap_add_post_def)
    next
      case ok: False
      have rc: "rc = (if lookup_node ?nd ?q = None then 1 else 0)"
        and sub: "lookup_node nd' = (lookup_node ?nd)(?q \<mapsto> d)"
        using post ok by (simp_all add: add_post_def)
      have upd: "lookup_slots ?ns' = (lookup_slots ?ns)(unat key \<mapsto> d)"
        using lookup_slots_update_child [OF i wf(2) dat sub] kq by simp
      show ?thesis
        using res ok upd rc look False inv' [OF wf' upd]
        by (auto simp: imap_add_post_def)
    qed
  qed
qed

lemma imap_inv_zeroed: "imap_inv imap_zeroed"
  by (simp add: imap_inv_def imap_zeroed_def keys_fit_def wf_slots_zeroed entries_slots_zeroed
      IMAP_NODE_SZ_def)

lemma imap_get_after_add:
  assumes "imap_inv m" "imap_add m key d al = Some (rc, m', al')" "rc \<noteq> - 1"
  shows "imap_get m' k = (if k = key then Some d else imap_get m k)"
proof -
  have "imap_add_post m key d rc m'"
    using imap_add_correct [OF assms(1), of key d al] assms(2) by auto
  then have "lookup_slots (nodes_m m') = (lookup_slots (nodes_m m))(unat key \<mapsto> d)"
    using assms(3) by (simp add: imap_add_post_def)
  then show ?thesis by (simp add: imap_get_lookup unat_inj_key)
qed

lemma imap_inv_after_add:
  assumes "imap_inv m" "imap_add m key d al = Some (rc, m', al')"
  shows "imap_inv m'"
  using imap_add_correct [OF assms(1), of key d al] assms(2)
  by (auto simp: imap_add_post_def)

section \<open>Removal\<close>

lemma size_after_delete:
  assumes wf: "wf_slots ns" "length ns = 32" and wf': "wf_slots ns'" "length ns' = 32"
    and upd: "lookup_slots ns' = (lookup_slots ns)(k := None)"
    and present: "lookup_slots ns k \<noteq> None"
    and sz: "unat (s :: u64) = length (entries_slots 0 ns)"
  shows "unat (s - 1) = length (entries_slots 0 ns')"
proof -
  have fin: "finite (dom (lookup_slots ns))" using wf by (rule finite_dom_lookup_slots)
  have c: "unat s = card (dom (lookup_slots ns))"
    using sz length_entries_card [OF wf] by simp
  have "dom (lookup_slots ns') = dom (lookup_slots ns) - {k}"
    using upd by simp
  then have c': "length (entries_slots 0 ns') = card (dom (lookup_slots ns) - {k})"
    using length_entries_card [OF wf'] by simp
  have kin: "k \<in> dom (lookup_slots ns)" using present by (simp add: dom_def)
  then have pos: "0 < card (dom (lookup_slots ns))"
    using fin by (auto simp: card_gt_0_iff)
  then have "s \<noteq> 0" using c by (auto simp: unat_eq_0)
  then have "unat (s - 1) = unat s - 1" by (simp add: unat_minus_one)
  then show ?thesis using c c' kin fin by simp
qed

lemma lookup_slots_no_entries:
  "wf_slots ns \<Longrightarrow> length ns = 32 \<Longrightarrow> length (entries_slots 0 ns) = 0 \<Longrightarrow>
   lookup_slots ns = Map.empty"
  using map_of_entries [of ns] by simp

text \<open>\<open>IMAP_pop_in\<close> is \<open>IMAP_pop\<close> on the children array it has found (for the proofs).\<close>

definition IMAP_pop_in ::
  "'a imap_node \<Rightarrow> 'a imap_node list \<Rightarrow> u64 \<Rightarrow> 'a option \<times> 'a imap_node" where
  "IMAP_pop_in node ns key =
     (if key div 32 = 0
      then
        (let nd = ns ! unat (key mod 32)
         in case data nd of
              None \<Rightarrow> (None, node)
            | Some v \<Rightarrow>
                (if size_n node - 1 \<noteq> 0
                 then (Some v,
                       Node (data node)
                         (Some (ns[unat (key mod 32) := Node None (nodes nd) (size_n nd)]))
                         (size_n node - 1))
                 else (Some v, Node (data node) None (size_n node - 1))))
      else
        (let (d, nd') = (if nodes (ns ! unat (key mod 32)) = None
                         then (None, ns ! unat (key mod 32))
                         else IMAP_pop (ns ! unat (key mod 32)) (key div 32 - 1))
         in if d \<noteq> None \<and> size_n node - 1 = 0
            then (d, Node (data node) None (size_n node - 1))
            else (d,
                  Node (data node)
                    (Some (ns[unat (key mod 32) := nd']))
                    (if d \<noteq> None then size_n node - 1 else size_n node))))"

lemma IMAP_pop_unfold:
  "IMAP_pop node key =
     (case nodes node of None \<Rightarrow> (None, node) | Some ns \<Rightarrow> IMAP_pop_in node ns key)"
  by (simp add: IMAP_pop.simps [of node key] IMAP_pop_in_def split: option.splits)

definition pop_post :: "'a imap_node \<Rightarrow> u64 \<Rightarrow> 'a option \<Rightarrow> 'a imap_node \<Rightarrow> bool" where
  "pop_post node key r node' =
     (r = lookup_node node (unat key) \<and> data node' = data node \<and> wf_node node' \<and>
      lookup_node node' = (lookup_node node)(unat key := None) \<and>
      (r = None \<longrightarrow> node' = node))"

lemma pop_post_absent:
  "wf_node node \<Longrightarrow> lookup_node node (unat key) = None \<Longrightarrow> pop_post node key None node"
  by (auto simp: pop_post_def fun_upd_idem_iff)

text \<open>The node that \<open>IMAP_pop\<close> leaves once an entry below it has been removed.\<close>

lemma removed_node:
  assumes wf: "wf_slots ns" "length ns = 32" and wf': "wf_slots ns'" "length ns' = 32"
    and upd: "lookup_slots ns' = (lookup_slots ns)(k := None)"
    and present: "lookup_slots ns k \<noteq> None"
    and sz: "unat (s :: u64) = length (entries_slots 0 ns)"
  shows "wf_node (if s - 1 \<noteq> 0 then Node d (Some ns') (s - 1) else Node d None (s - 1)) \<and>
         lookup_node (if s - 1 \<noteq> 0 then Node d (Some ns') (s - 1) else Node d None (s - 1)) =
           (lookup_slots ns)(k := None)"
proof -
  have n: "unat (s - 1) = length (entries_slots 0 ns')"
    by (rule size_after_delete [OF wf wf' upd present sz])
  show ?thesis
  proof (cases "s - 1 = 0")
    case True
    then have "length (entries_slots 0 ns') = 0" using n by simp
    then have "lookup_slots ns' = Map.empty"
      by (rule lookup_slots_no_entries [OF wf'])
    then show ?thesis using True upd by (simp add: wf_node_Node lookup_node_def)
  next
    case False
    then show ?thesis using wf' n upd by (simp add: wf_node_Node lookup_node_def)
  qed
qed

lemma IMAP_pop_in_correct:
  assumes wf: "wf_slots ns" "length ns = 32"
    and sz: "unat (size_n node) = length (entries_slots 0 ns)"
    and ns: "nodes node = Some ns"
    and IH: "key div 32 \<noteq> 0 \<Longrightarrow> nodes (ns ! unat (key mod 32)) \<noteq> None \<Longrightarrow>
       \<exists>r nd'. IMAP_pop (ns ! unat (key mod 32)) (key div 32 - 1) = (r, nd') \<and>
         pop_post (ns ! unat (key mod 32)) (key div 32 - 1) r nd'"
  shows "\<exists>r node'. IMAP_pop_in node ns key = (r, node') \<and> pop_post node key r node'"
proof (cases "key div 32 = 0")
  case True
  let ?i = "unat (key mod 32)"
  let ?nd = "ns ! ?i"
  let ?ns' = "ns[?i := Node None (nodes ?nd) (size_n ?nd)]"
  have i: "?i < 32" by (rule digit_less)
  have ki: "unat key = ?i"
    using True by (simp add: rest_zero unat_digit div_eq_0_iff)
  have ln: "lookup_node node = lookup_slots ns" using ns by (simp add: lookup_node_def)
  have look: "lookup_slots ns (unat key) = data ?nd"
    using True by (simp add: lookup_slots_slot slot_get_def rest_zero unat_digit)
  have wfnode: "wf_node node" using wf sz ns by (simp add: wf_node_sel)
  show ?thesis
  proof (cases "data ?nd")
    case None
    then have "IMAP_pop_in node ns key = (None, node)"
      using True by (simp add: IMAP_pop_in_def)
    moreover have "pop_post node key None node"
      using wfnode ln look None by (intro pop_post_absent) simp_all
    ultimately show ?thesis by blast
  next
    case (Some v)
    have upd: "lookup_slots ?ns' = (lookup_slots ns)(unat key := None)"
      unfolding ki by (rule lookup_slots_update_data [OF i wf(2)])
    have wf': "wf_slots ?ns'" "length ?ns' = 32"
      using wf i by (simp_all add: wf_slots_update wf_node_set_data wf_slots_nth)
    have present: "lookup_slots ns (unat key) \<noteq> None" using look Some by simp
    let ?node' = "if size_n node - 1 \<noteq> 0 then Node (data node) (Some ?ns') (size_n node - 1)
                  else Node (data node) None (size_n node - 1)"
    have "wf_node ?node' \<and> lookup_node ?node' = (lookup_slots ns)(unat key := None)"
      by (rule removed_node [OF wf wf' upd present sz])
    then have "pop_post node key (Some v) ?node'"
      using ln look Some by (simp add: pop_post_def)
    moreover have "IMAP_pop_in node ns key = (Some v, ?node')"
      using True Some by (simp add: IMAP_pop_in_def Let_def)
    ultimately show ?thesis by blast
  qed
next
  case False
  let ?i = "unat (key mod 32)"
  let ?nd = "ns ! ?i"
  let ?q = "unat (key div 32 - 1)"
  have i: "?i < 32" by (rule digit_less)
  have q: "?q = unat key div 32 - 1" using False by (rule unat_rest_pred)
  have nz: "unat key div 32 \<noteq> 0" using False by (simp add: rest_zero)
  have kq: "shift_key ?i ?q = unat key"
    unfolding q unat_digit by (rule shift_key_decomp [OF nz])
  have ln: "lookup_node node = lookup_slots ns" using ns by (simp add: lookup_node_def)
  have look: "lookup_slots ns (unat key) = lookup_node ?nd ?q"
    using lookup_node_in_parent [OF i, of ns ?q] kq by simp
  have wfnd: "wf_node ?nd" using wf i by (intro wf_slots_nth) simp_all
  have wfnode: "wf_node node" using wf sz ns by (simp add: wf_node_sel)
  obtain r nd' where
    call: "(if nodes ?nd = None then (None, ?nd) else IMAP_pop ?nd (key div 32 - 1)) = (r, nd')"
    and post: "pop_post ?nd (key div 32 - 1) r nd'"
  proof (cases "nodes ?nd")
    case None
    then have "pop_post ?nd (key div 32 - 1) None ?nd"
      using wfnd by (intro pop_post_absent) (simp_all add: lookup_node_def)
    then show ?thesis using that None by simp
  next
    case (Some cs)
    then show ?thesis using that IH [OF False] by auto
  qed
  let ?ns' = "ns[?i := nd']"
  have dat: "data nd' = data ?nd" and wfn: "wf_node nd'"
    and sub: "lookup_node nd' = (lookup_node ?nd)(?q := None)"
    and r: "r = lookup_node ?nd ?q"
    using post by (simp_all add: pop_post_def)
  have wf': "wf_slots ?ns'" "length ?ns' = 32"
    using wf wfn by (simp_all add: wf_slots_update)
  have upd: "lookup_slots ?ns' = (lookup_slots ns)(unat key := None)"
    using lookup_slots_update_child [OF i wf(2) dat sub] kq by simp
  show ?thesis
  proof (cases r)
    case None
    then have "nd' = ?nd" using post by (simp add: pop_post_def)
    then have "Node (data node) (Some ?ns') (size_n node) = node"
      using ns by (cases node) simp
    then have "IMAP_pop_in node ns key = (None, node)"
      using False call None by (simp add: IMAP_pop_in_def)
    moreover have "pop_post node key None node"
      using wfnode ln look r None by (intro pop_post_absent) simp_all
    ultimately show ?thesis by blast
  next
    case (Some v)
    have rv: "lookup_node ?nd ?q = Some v" using r Some by simp
    have present: "lookup_slots ns (unat key) \<noteq> None" unfolding look rv by simp
    let ?node' = "if size_n node - 1 \<noteq> 0 then Node (data node) (Some ?ns') (size_n node - 1)
                  else Node (data node) None (size_n node - 1)"
    have "wf_node ?node' \<and> lookup_node ?node' = (lookup_slots ns)(unat key := None)"
      by (rule removed_node [OF wf wf' upd present sz])
    then have "pop_post node key (Some v) ?node'"
      using ln look rv by (simp add: pop_post_def)
    moreover have "IMAP_pop_in node ns key = (Some v, ?node')"
      using False call Some by (simp add: IMAP_pop_in_def)
    ultimately show ?thesis by blast
  qed
qed

lemma IMAP_pop_correct:
  assumes "wf_node node"
  shows "\<exists>r node'. IMAP_pop node key = (r, node') \<and> pop_post node key r node'"
  using assms
proof (induction "unat key" arbitrary: node key rule: less_induct)
  case less
  note wf = less.prems
  show ?case
  proof (cases "nodes node")
    case None
    then have "IMAP_pop node key = (None, node)" by (simp add: IMAP_pop_unfold)
    moreover have "pop_post node key None node"
      using wf None by (intro pop_post_absent) (simp_all add: lookup_node_def)
    ultimately show ?thesis by blast
  next
    case (Some ns)
    have wfn: "wf_slots ns" "length ns = 32" and sz: "unat (size_n node) = length (entries_slots 0 ns)"
      using wf Some by (simp_all add: wf_node_sel)
    have IH: "key div 32 \<noteq> 0 \<Longrightarrow> nodes (ns ! unat (key mod 32)) \<noteq> None \<Longrightarrow>
       \<exists>r nd'. IMAP_pop (ns ! unat (key mod 32)) (key div 32 - 1) = (r, nd') \<and>
         pop_post (ns ! unat (key mod 32)) (key div 32 - 1) r nd'"
    proof -
      assume nz: "key div 32 \<noteq> 0"
      have lt: "unat (key div 32 - 1) < unat key" using nz by (rule key_descent)
      have "wf_node (ns ! unat (key mod 32))"
        using wfn digit_less [of key] by (intro wf_slots_nth) simp_all
      then show ?thesis using less.hyps [OF lt] by blast
    qed
    show ?thesis
      using IMAP_pop_in_correct [OF wfn sz Some IH] Some by (simp add: IMAP_pop_unfold)
  qed
qed

definition imap_pop_post :: "'a imap \<Rightarrow> u64 \<Rightarrow> 'a option \<Rightarrow> 'a imap \<Rightarrow> bool" where
  "imap_pop_post m key r m' =
     (r = imap_get m key \<and> imap_inv m' \<and>
      lookup_slots (nodes_m m') = (lookup_slots (nodes_m m))(unat key := None) \<and>
      len m' = (if r = None then len m else len m - 1) \<and>
      (r = None \<longrightarrow> m' = m))"

lemma imap_pop_correct:
  assumes inv: "imap_inv m"
  shows "\<exists>r m'. imap_pop m key = (r, m') \<and> imap_pop_post m key r m'"
proof -
  let ?ns = "nodes_m m"
  let ?i = "unat (key mod 32)"
  let ?nd = "?ns ! ?i"
  have wf: "wf_slots ?ns" "length ?ns = 32" using inv by (simp_all add: imap_inv_def)
  have bound: "\<forall>k \<in> dom (lookup_slots ?ns). k < 2 ^ 64" using inv by (rule imap_inv_bound)
  have i: "?i < 32" by (rule digit_less)
  have inv': "\<And>ns' l. wf_slots ns' \<Longrightarrow> length ns' = 32 \<Longrightarrow>
      lookup_slots ns' = (lookup_slots ?ns)(unat key := None) \<Longrightarrow> imap_inv (Imap l ns')"
    using bound by (intro imap_invI) (auto split: if_splits)
  have absent: "imap_get m key = None \<Longrightarrow> imap_pop_post m key None m"
    using inv by (auto simp: imap_pop_post_def imap_get_lookup fun_upd_idem_iff)
  show ?thesis
  proof (cases "key div 32 = 0")
    case True
    let ?ns' = "?ns[?i := Node None (nodes ?nd) (size_n ?nd)]"
    have ki: "unat key = ?i"
      using True by (simp add: rest_zero unat_digit div_eq_0_iff)
    have look: "imap_get m key = data ?nd"
      using True by (simp add: imap_get_def)
    show ?thesis
    proof (cases "data ?nd")
      case None
      then have "imap_pop m key = (None, m)" using True by (simp add: imap_pop_def)
      then show ?thesis using absent look None by simp
    next
      case (Some v)
      have upd: "lookup_slots ?ns' = (lookup_slots ?ns)(unat key := None)"
        unfolding ki by (rule lookup_slots_update_data [OF i wf(2)])
      have wf': "wf_slots ?ns'" "length ?ns' = 32"
        using wf i by (simp_all add: wf_slots_update wf_node_set_data wf_slots_nth)
      have "imap_pop m key = (Some v, Imap (len m - 1) ?ns')"
        using True Some by (simp add: imap_pop_def Let_def)
      moreover have "imap_pop_post m key (Some v) (Imap (len m - 1) ?ns')"
        using look Some upd inv' [OF wf' upd] by (simp add: imap_pop_post_def)
      ultimately show ?thesis by blast
    qed
  next
    case False
    let ?q = "unat (key div 32 - 1)"
    have q: "?q = unat key div 32 - 1" using False by (rule unat_rest_pred)
    have nz: "unat key div 32 \<noteq> 0" using False by (simp add: rest_zero)
    have kq: "shift_key ?i ?q = unat key"
      unfolding q unat_digit by (rule shift_key_decomp [OF nz])
    have look: "imap_get m key = lookup_node ?nd ?q"
      using lookup_node_in_parent [OF i, of ?ns ?q] kq by (simp add: imap_get_lookup)
    have wfnd: "wf_node ?nd" using wf i by (intro wf_slots_nth) simp_all
    obtain r nd' where
      call: "(if nodes ?nd = None then (None, ?nd) else IMAP_pop ?nd (key div 32 - 1)) = (r, nd')"
      and post: "pop_post ?nd (key div 32 - 1) r nd'"
    proof (cases "nodes ?nd")
      case None
      then have "pop_post ?nd (key div 32 - 1) None ?nd"
        using wfnd by (intro pop_post_absent) (simp_all add: lookup_node_def)
      then show ?thesis using that None by simp
    next
      case (Some cs)
      then show ?thesis using that IMAP_pop_correct [OF wfnd, of "key div 32 - 1"] by auto
    qed
    let ?ns' = "?ns[?i := nd']"
    have dat: "data nd' = data ?nd" and wfn: "wf_node nd'"
      and sub: "lookup_node nd' = (lookup_node ?nd)(?q := None)"
      and r: "r = lookup_node ?nd ?q"
      using post by (simp_all add: pop_post_def)
    have wf': "wf_slots ?ns'" "length ?ns' = 32"
      using wf wfn by (simp_all add: wf_slots_update)
    have upd: "lookup_slots ?ns' = (lookup_slots ?ns)(unat key := None)"
      using lookup_slots_update_child [OF i wf(2) dat sub] kq by simp
    have res: "imap_pop m key = (r, Imap (len m - (if r \<noteq> None then 1 else 0)) ?ns')"
      using False call by (simp add: imap_pop_def Let_def)
    show ?thesis
    proof (cases r)
      case None
      then have "nd' = ?nd" using post by (simp add: pop_post_def)
      then have "Imap (len m - (if r \<noteq> None then 1 else 0)) ?ns' = m"
        using None by (cases m) simp
      then show ?thesis using res absent look r None by simp
    next
      case (Some v)
      have rv: "lookup_node ?nd ?q = Some v" using r Some by simp
      have "imap_pop_post m key (Some v) (Imap (len m - 1) ?ns')"
        using look rv upd inv' [OF wf' upd] by (simp add: imap_pop_post_def)
      then show ?thesis using res Some by simp
    qed
  qed
qed

text \<open>Counting entries is counting the 64-bit keys that \<open>imap_get\<close> finds.\<close>

lemma dom_lookup_unat:
  assumes "imap_inv m"
  shows "dom (lookup_slots (nodes_m m)) = unat ` dom (imap_get m)"
proof (intro set_eqI iffI)
  fix k assume k: "k \<in> dom (lookup_slots (nodes_m m))"
  then have "k < 2 ^ 64" using imap_inv_bound [OF assms] by blast
  then have "unat (of_nat k :: u64) = k" by (simp add: unat_of_nat)
  then show "k \<in> unat ` dom (imap_get m)"
    using k by (intro image_eqI [where x = "of_nat k"]) (auto simp: imap_get_lookup dom_def)
next
  fix k assume "k \<in> unat ` dom (imap_get m)"
  then show "k \<in> dom (lookup_slots (nodes_m m))"
    by (auto simp: imap_get_lookup dom_def)
qed

lemma count_keys:
  assumes "imap_inv m"
  shows "length (entries_slots 0 (nodes_m m)) = card (dom (imap_get m))"
proof -
  have "length (entries_slots 0 (nodes_m m)) = card (dom (lookup_slots (nodes_m m)))"
    using assms by (intro length_entries_card) (simp_all add: imap_inv_def)
  also have "\<dots> = card (unat ` dom (imap_get m))"
    using dom_lookup_unat [OF assms] by simp
  also have "\<dots> = card (dom (imap_get m))"
    by (intro card_image inj_onI) (simp add: unat_inj_key)
  finally show ?thesis .
qed

lemma finite_dom_imap_get: "finite (dom (imap_get (m :: 'a imap)))"
  by (rule finite_subset [of _ UNIV]) simp_all

lemma imap_get_after_pop:
  assumes "imap_inv m"
  shows "imap_get (snd (imap_pop m key)) k = (if k = key then None else imap_get m k)"
proof -
  obtain r m' where "imap_pop m key = (r, m')" "imap_pop_post m key r m'"
    using imap_pop_correct [OF assms, of key] by blast
  then show ?thesis
    by (simp add: imap_pop_post_def imap_get_lookup unat_inj_key)
qed

lemma imap_pop_result:
  assumes "imap_inv m"
  shows "fst (imap_pop m key) = imap_get m key"
  using imap_pop_correct [OF assms, of key] by (auto simp: imap_pop_post_def)

lemma imap_inv_after_pop:
  assumes "imap_inv m"
  shows "imap_inv (snd (imap_pop m key))"
  using imap_pop_correct [OF assms, of key] by (auto simp: imap_pop_post_def)

lemma len_after_pop:
  assumes "imap_inv m"
  shows "len (snd (imap_pop m key)) = (if imap_get m key = None then len m else len m - 1)"
  using imap_pop_correct [OF assms, of key] by (auto simp: imap_pop_post_def)

lemma imap_pop_absent:
  assumes "imap_inv m" "imap_get m key = None"
  shows "imap_pop m key = (None, m)"
  using imap_pop_correct [OF assms(1), of key] assms(2) by (auto simp: imap_pop_post_def)

lemma len_after_add:
  assumes "imap_inv m" "imap_add m key d al = Some (rc, m', al')" "rc \<noteq> - 1"
  shows "len m' = (if imap_get m key = None then len m + 1 else len m)"
  using imap_add_correct [OF assms(1), of key d al] assms(2,3)
  by (auto simp: imap_add_post_def)

lemma len_ok_count: "imap_inv m \<Longrightarrow> len_ok m = (unat (len m) = card (dom (imap_get m)))"
  by (simp add: len_ok_def count_keys)

lemma len_ok_after_pop:
  assumes inv: "imap_inv m" and ok: "len_ok m"
  shows "len_ok (snd (imap_pop m key))"
proof -
  let ?m' = "snd (imap_pop m key)"
  have inv': "imap_inv ?m'" using inv by (rule imap_inv_after_pop)
  have get: "imap_get ?m' = (imap_get m)(key := None)"
    by (rule ext) (simp add: imap_get_after_pop [OF inv])
  have c: "unat (len m) = card (dom (imap_get m))" using ok inv by (simp add: len_ok_count)
  show ?thesis
  proof (cases "imap_get m key")
    case None
    then have "imap_pop m key = (None, m)" using inv by (intro imap_pop_absent)
    then show ?thesis using ok by simp
  next
    case (Some v)
    then have kin: "key \<in> dom (imap_get m)" by (simp add: dom_def)
    then have "0 < card (dom (imap_get m))"
      using finite_dom_imap_get [of m] by (auto simp: card_gt_0_iff)
    then have "len m \<noteq> 0" using c by (auto simp: unat_eq_0)
    then have "unat (len m - 1) = unat (len m) - 1" by (simp add: unat_minus_one)
    moreover have "card (dom (imap_get ?m')) = card (dom (imap_get m)) - 1"
      using get kin finite_dom_imap_get [of m] by simp
    ultimately show ?thesis
      using len_after_pop [OF inv, of key] Some c inv' by (simp add: len_ok_count)
  qed
qed

lemma len_ok_after_add:
  assumes inv: "imap_inv m" and ok: "len_ok m"
    and add: "imap_add m key d al = Some (rc, m', al')" and rc: "rc \<noteq> - 1"
    and room: "unat (len m) + 1 < 2 ^ 64"
  shows "len_ok m'"
proof -
  have inv': "imap_inv m'" using inv add by (rule imap_inv_after_add)
  have get: "imap_get m' = (imap_get m)(key \<mapsto> d)"
    by (rule ext) (simp add: imap_get_after_add [OF inv add rc])
  have c: "unat (len m) = card (dom (imap_get m))" using ok inv by (simp add: len_ok_count)
  show ?thesis
  proof (cases "imap_get m key")
    case None
    then have "key \<notin> dom (imap_get m)" by (simp add: dom_def)
    then have "card (dom (imap_get m')) = card (dom (imap_get m)) + 1"
      using get finite_dom_imap_get [of m] by simp
    moreover have "unat (len m + 1) = unat (len m) + 1"
      using room unat_add_lem [of "len m" 1] by simp
    ultimately show ?thesis
      using len_after_add [OF inv add rc] None c inv' by (simp add: len_ok_count)
  next
    case (Some v)
    then have "key \<in> dom (imap_get m)" by (simp add: dom_def)
    then have "card (dom (imap_get m')) = card (dom (imap_get m))"
      using get by (simp add: insert_absorb)
    then show ?thesis
      using len_after_add [OF inv add rc] Some c inv' by (simp add: len_ok_count)
  qed
qed

section \<open>Sequences of operations and the entry count\<close>

text \<open>The number of value slots that are not \<open>NULL\<close>, summed over the whole tree.\<close>

fun count_slots :: "'a imap_node list \<Rightarrow> nat" where
  "count_slots [] = 0"
| "count_slots (Node d c s # rest) =
     (if d = None then 0 else 1) +
     (case c of None \<Rightarrow> 0 | Some cs \<Rightarrow> count_slots cs) +
     count_slots rest"

lemma count_slots_entries: "count_slots ns = length (entries_slots i ns)"
  by (induction i ns rule: entries_slots.induct) (auto split: option.splits)

text \<open>Sequences of public operations.\<close>

datatype 'a imap_op = Add u64 'a | Pop u64

fun op_key :: "'a imap_op \<Rightarrow> u64" where
  "op_key (Add k v) = k"
| "op_key (Pop k) = k"

fun is_add :: "'a imap_op \<Rightarrow> bool" where
  "is_add (Add k v) = True"
| "is_add (Pop k) = False"

text \<open>
  \<open>run\<close> performs the operations in order on a map; the result is \<open>None\<close> as soon as an
  add does not succeed.
\<close>

fun run :: "'a imap_op list \<Rightarrow> 'a imap \<Rightarrow> bool list \<Rightarrow> ('a imap \<times> bool list) option" where
  "run [] m al = Some (m, al)"
| "run (Add k v # ops) m al =
     (case imap_add m k v al of
        None \<Rightarrow> None
      | Some (rc, m', al') \<Rightarrow> if rc = - 1 then None else run ops m' al')"
| "run (Pop k # ops) m al = run ops (snd (imap_pop m k)) al"

text \<open>The most recent operation on key \<open>k\<close> is an add.\<close>

definition last_is_add :: "'a imap_op list \<Rightarrow> u64 \<Rightarrow> bool" where
  "last_is_add ops k =
     (case find (\<lambda>x. op_key x = k) (rev ops) of
        None \<Rightarrow> False
      | Some x \<Rightarrow> is_add x)"

lemma last_is_add_Nil: "last_is_add [] k = False"
  by (simp add: last_is_add_def)

lemma last_is_add_snoc:
  "last_is_add (ops @ [x]) k = (if op_key x = k then is_add x else last_is_add ops k)"
  by (simp add: last_is_add_def)

lemma find_Some_member: "find P xs = Some x \<Longrightarrow> P x \<and> x \<in> set xs"
  by (induction xs) (auto split: if_splits)

lemma last_is_add_keys: "{k. last_is_add ops k} \<subseteq> op_key ` set ops"
proof
  fix k assume "k \<in> {k. last_is_add ops k}"
  then obtain x where "find (\<lambda>x. op_key x = k) (rev ops) = Some x"
    by (auto simp: last_is_add_def split: option.splits)
  then have "x \<in> set ops" "op_key x = k"
    using find_Some_member [of "\<lambda>x. op_key x = k" "rev ops" x] by simp_all
  then show "k \<in> op_key ` set ops" by blast
qed

lemma card_last_is_add: "card {k. last_is_add ops k} \<le> length ops"
proof -
  have "card {k. last_is_add ops k} \<le> card (op_key ` set ops)"
    by (intro card_mono last_is_add_keys) simp
  also have "\<dots> \<le> card (set ops)" by (intro card_image_le) simp
  also have "\<dots> \<le> length ops" by (rule card_length)
  finally show ?thesis .
qed

lemma run_append:
  "run (xs @ ys) m al =
     (case run xs m al of None \<Rightarrow> None | Some (m', al') \<Rightarrow> run ys m' al')"
proof (induction xs m al rule: run.induct)
  case (1 m al)
  then show ?case by simp
next
  case (2 k v ops m al)
  then show ?case by (auto split: option.splits)
next
  case (3 k ops m al)
  then show ?case by simp
qed

lemma run_invariant:
  assumes "run ops imap_zeroed al = Some (m, al')" "length ops < 2 ^ 64"
  shows "imap_inv m \<and> len_ok m \<and> dom (imap_get m) = {k. last_is_add ops k}"
  using assms
proof (induction ops arbitrary: m al' rule: rev_induct)
  case Nil
  then have "m = imap_zeroed" by simp
  moreover have "len_ok (imap_zeroed :: 'a imap)"
    by (simp add: len_ok_def imap_zeroed_def entries_slots_zeroed)
  moreover have "dom (imap_get (imap_zeroed :: 'a imap)) = {}"
    using count_keys [OF imap_inv_zeroed, where ?'a = 'a] finite_dom_imap_get [of "imap_zeroed :: 'a imap"]
    by (simp add: imap_zeroed_def entries_slots_zeroed)
  ultimately show ?case by (simp add: imap_inv_zeroed last_is_add_Nil)
next
  case (snoc x ops)
  from snoc.prems(1) obtain m0 al0 where
    r0: "run ops imap_zeroed al = Some (m0, al0)" and r1: "run [x] m0 al0 = Some (m, al')"
    by (auto simp: run_append split: option.splits)
  have len: "length ops + 1 < 2 ^ 64" using snoc.prems(2) by simp
  have inv0: "imap_inv m0" and ok0: "len_ok m0"
    and dom0: "dom (imap_get m0) = {k. last_is_add ops k}"
    using snoc.IH [OF r0] len by simp_all
  have room: "unat (len m0) + 1 < 2 ^ 64"
    using ok0 inv0 dom0 card_last_is_add [of ops] len by (simp add: len_ok_count)
  show ?case
  proof (cases x)
    case (Add k v)
    from r1 Add obtain rc where
      add: "imap_add m0 k v al0 = Some (rc, m, al')" and rc: "rc \<noteq> - 1"
      by (auto split: option.splits if_splits)
    have get: "imap_get m = (imap_get m0)(k \<mapsto> v)"
      by (rule ext) (simp add: imap_get_after_add [OF inv0 add rc])
    have "dom (imap_get m) = {k'. last_is_add (ops @ [x]) k'}"
      unfolding get using dom0 Add by (auto simp: last_is_add_snoc)
    then show ?thesis
      using imap_inv_after_add [OF inv0 add] len_ok_after_add [OF inv0 ok0 add rc room]
      by simp
  next
    case (Pop k)
    then have m: "m = snd (imap_pop m0 k)" using r1 by simp
    have get: "imap_get m = (imap_get m0)(k := None)"
      unfolding m by (rule ext) (simp add: imap_get_after_pop [OF inv0])
    have "dom (imap_get m) = {k'. last_is_add (ops @ [x]) k'}"
      unfolding get using dom0 Pop by (auto simp: last_is_add_snoc)
    then show ?thesis
      unfolding m using imap_inv_after_pop [OF inv0] len_ok_after_pop [OF inv0 ok0]
      by simp
  qed
qed

section \<open>The traversals visit the values in one order\<close>

text \<open>The values of a map in the order of the traversals: slot by slot, the slot's own
  value first, then the values below it.\<close>

fun walk_order :: "'a imap_node list \<Rightarrow> 'a list" where
  "walk_order [] = []"
| "walk_order (Node d c s # rest) =
     (case d of None \<Rightarrow> [] | Some v \<Rightarrow> [v]) @
     (case c of None \<Rightarrow> [] | Some cs \<Rightarrow> walk_order cs) @
     walk_order rest"

lemma walk_order_entries: "walk_order ns = map snd (entries_slots i ns)"
  by (induction i ns rule: entries_slots.induct) (auto split: option.splits simp: comp_def case_prod_beta)

lemma length_walk_order: "length (walk_order ns) = count_slots ns"
  by (simp add: walk_order_entries [of ns 0] count_slots_entries [of ns 0])

text \<open>Calling back on a list of values: all of them, or as long as the budget is not zero.\<close>

fun walk_list :: "'a list \<Rightarrow> ('a, 'c) imap_cb \<Rightarrow> 'c \<Rightarrow> c_int \<Rightarrow> 'c \<times> c_int" where
  "walk_list [] cb ctx rc = (ctx, rc)"
| "walk_list (v # vs) cb ctx rc = (case cb v ctx of (r, ctx1) \<Rightarrow> walk_list vs cb ctx1 (rc + r))"

fun walkn_list :: "'a list \<Rightarrow> ('a, 'c) imap_cb \<Rightarrow> 'c \<Rightarrow> u64 \<Rightarrow> 'c \<times> u64" where
  "walkn_list [] cb ctx n = (ctx, n)"
| "walkn_list (v # vs) cb ctx n =
     (if n = 0 then (ctx, n)
      else (case cb v ctx of (r, ctx1) \<Rightarrow> walkn_list vs cb ctx1 (n - word_of_int (sint r))))"

lemma walk_list_append:
  "walk_list (xs @ ys) cb ctx rc =
     (case walk_list xs cb ctx rc of (ctx1, rc1) \<Rightarrow> walk_list ys cb ctx1 rc1)"
  by (induction xs arbitrary: ctx rc) (auto split: prod.splits)

lemma walkn_list_zero: "walkn_list vs cb ctx 0 = (ctx, 0)"
  by (cases vs) simp_all

lemma walkn_list_append:
  "walkn_list (xs @ ys) cb ctx n =
     (case walkn_list xs cb ctx n of (ctx1, n1) \<Rightarrow> walkn_list ys cb ctx1 n1)"
  by (induction xs arbitrary: ctx n) (auto split: prod.splits simp: walkn_list_zero)

lemma IMAP_walk_list:
  "IMAP_walk nd cb ctx rc =
     walk_list (case nodes nd of None \<Rightarrow> [] | Some ns \<Rightarrow> walk_order ns) cb ctx rc"
  "IMAP_walk_loop ns cb ctx rc = walk_list (walk_order ns) cb ctx rc"
proof (induction nd cb ctx rc and ns cb ctx rc rule: IMAP_walk_IMAP_walk_loop.induct)
  case (1 d c s cb ctx rc)
  then show ?case by (cases c) simp_all
next
  case (2 cb ctx rc)
  then show ?case by simp
next
  case (3 d c s rest cb ctx rc)
  then show ?case
    by (cases d; cases c) (auto simp: walk_list_append split: prod.splits)
qed

lemma IMAP_walkn_loop_zero: "IMAP_walkn_loop ns cb ctx 0 = (ctx, 0)"
  by (cases ns rule: walk_order.cases) simp_all

lemma IMAP_walkn_list:
  "IMAP_walkn nd cb ctx n =
     walkn_list (case nodes nd of None \<Rightarrow> [] | Some ns \<Rightarrow> walk_order ns) cb ctx n"
  "IMAP_walkn_loop ns cb ctx n = walkn_list (walk_order ns) cb ctx n"
proof (induction nd cb ctx n and ns cb ctx n rule: IMAP_walkn_IMAP_walkn_loop.induct)
  case (1 d c s cb ctx n)
  then show ?case by (cases c) simp_all
next
  case (2 cb ctx n)
  then show ?case by simp
next
  case (3 d c s rest cb ctx n)
  show ?case
  proof (cases "n = 0")
    case True
    then show ?thesis by (simp add: walkn_list_zero)
  next
    case False
    then show ?thesis
      using 3
      by (cases d; cases c)
         (auto simp: walkn_list_append walkn_list_zero split: prod.splits)
  qed
qed

lemma IMAP_2slist_list:
  "IMAP_2slist nd sl = sl @ (case nodes nd of None \<Rightarrow> [] | Some ns \<Rightarrow> walk_order ns)"
  "IMAP_2slist_loop ns sl = sl @ walk_order ns"
proof (induction nd sl and ns sl rule: IMAP_2slist_IMAP_2slist_loop.induct)
  case (1 d c s slist)
  then show ?case by (cases c) simp_all
next
  case (2 slist)
  then show ?case by simp
next
  case (3 d c s rest slist)
  then show ?case
    by (cases d; cases c) (simp_all add: slist_append_def)
qed

lemma walk_order_empty: "len_ok m \<Longrightarrow> len m = 0 \<Longrightarrow> walk_order (nodes_m m) = []"
  by (simp add: len_ok_def walk_order_entries [of _ 0])

lemma length_walk_order_len: "len_ok m \<Longrightarrow> length (walk_order (nodes_m m)) = unat (len m)"
  by (simp add: len_ok_def walk_order_entries [of _ 0])

lemma imap_walk_list:
  "len_ok m \<Longrightarrow> imap_walk m cb ctx = walk_list (walk_order (nodes_m m)) cb ctx 0"
  by (simp add: imap_walk_def IMAP_walk_list walk_order_empty)

lemma imap_walkn_list:
  "len_ok m \<Longrightarrow> imap_walkn m n cb ctx = walkn_list (walk_order (nodes_m m)) cb ctx n"
  by (simp add: imap_walkn_def IMAP_walkn_list walk_order_empty)

lemma imap_2slist_list:
  "len_ok m \<Longrightarrow> imap_2slist m al = (Some sl, al') \<Longrightarrow> sl = walk_order (nodes_m m)"
  by (auto simp: imap_2slist_def slist_new_def IMAP_2slist_list walk_order_empty
      split: prod.splits if_splits)

text \<open>The context after the callback has been invoked on the values of a list, in order.\<close>

definition calls :: "('a, 'c) imap_cb \<Rightarrow> 'a list \<Rightarrow> 'c \<Rightarrow> 'c" where
  "calls cb vs ctx = fold (\<lambda>v c. snd (cb v c)) vs ctx"

lemma calls_Nil: "calls cb [] ctx = ctx"
  by (simp add: calls_def)

lemma calls_Cons: "calls cb (v # vs) ctx = calls cb vs (snd (cb v ctx))"
  by (simp add: calls_def)

lemma walk_list_calls: "fst (walk_list vs cb ctx rc) = calls cb vs ctx"
  by (induction vs arbitrary: ctx rc) (auto simp: calls_Nil calls_Cons split: prod.splits)

lemma walkn_list_unit:
  assumes "\<forall>v c. fst (cb v c) = 1"
  shows "walkn_list vs cb ctx n =
         (calls cb (take (unat n) vs) ctx, n - of_nat (min (unat n) (length vs)))"
proof (induction vs arbitrary: ctx n)
  case Nil
  then show ?case by (simp add: calls_Nil)
next
  case (Cons v vs)
  show ?case
  proof (cases "n = 0")
    case True
    then show ?thesis by (simp add: calls_Nil)
  next
    case False
    obtain r ctx1 where cb: "cb v ctx = (r, ctx1)" by (cases "cb v ctx")
    have "fst (cb v ctx) = 1" using assms by blast
    then have r: "r = 1" using cb by simp
    have pos: "0 < unat n" using False by (simp add: unat_gt_0)
    have un: "unat (n - 1) = unat n - 1" using False by (simp add: unat_minus_one)
    have tk: "take (unat n) (v # vs) = v # take (unat n - 1) vs"
      using pos by (cases "unat n") simp_all
    have mn: "min (unat n) (length (v # vs)) = Suc (min (unat n - 1) (length vs))"
      using pos by (cases "unat n") simp_all
    show ?thesis
      using False cb r Cons.IH [of ctx1 "n - 1"]
      unfolding tk mn un by (simp add: calls_Cons)
  qed
qed

lemma walkn_list_not_exhausted:
  "snd (walkn_list vs cb ctx n) \<noteq> 0 \<Longrightarrow> fst (walkn_list vs cb ctx n) = calls cb vs ctx"
proof (induction vs arbitrary: ctx n)
  case Nil
  then show ?case by (simp add: calls_Nil)
next
  case (Cons v vs)
  then show ?case
    by (cases "n = 0") (auto simp: calls_Cons split: prod.splits)
qed

lemma len_ok_count_slots: "len_ok m = (unat (len m) = count_slots (nodes_m m))"
  by (simp add: len_ok_def count_slots_entries [of _ 0])

lemma mset_values_of_alist:
  "distinct (map fst es) \<Longrightarrow>
   mset (map snd es) = image_mset (\<lambda>k. the (map_of es k)) (mset (map fst es))"
proof (induction es)
  case Nil
  then show ?case by simp
next
  case (Cons e es)
  obtain k v where e: "e = (k, v)" by (cases e)
  have "k \<notin> fst ` set es" using Cons.prems e by simp
  then have "image_mset (\<lambda>k'. the (map_of (e # es) k')) (mset (map fst es)) =
             image_mset (\<lambda>k'. the (map_of es k')) (mset (map fst es))"
    using e by (intro image_mset_cong) auto
  then show ?case using Cons e by simp
qed

lemma mset_walk_order:
  assumes inv: "imap_inv m"
  shows "mset (walk_order (nodes_m m)) =
         image_mset (\<lambda>k. the (imap_get m k)) (mset_set (dom (imap_get m)))"
proof -
  let ?es = "entries_slots 0 (nodes_m m)"
  have wf: "wf_slots (nodes_m m)" "length (nodes_m m) = 32"
    using inv by (simp_all add: imap_inv_def)
  have d: "distinct (map fst ?es)"
    using distinct_entries_slots [OF wf(1), of 0] wf(2) by simp
  have mo: "map_of ?es = lookup_slots (nodes_m m)" by (rule map_of_entries [OF wf])
  have keys: "set (map fst ?es) = unat ` dom (imap_get m)"
    using dom_lookup_slots [OF wf] dom_lookup_unat [OF inv] by simp
  have "mset (map fst ?es) = mset_set (set (map fst ?es))"
    by (rule mset_set_set [OF d, symmetric])
  also have "\<dots> = image_mset unat (mset_set (dom (imap_get m)))"
    unfolding keys by (intro image_mset_mset_set [symmetric] inj_onI) (simp add: unat_inj_key)
  finally have ks: "mset (map fst ?es) = image_mset unat (mset_set (dom (imap_get m)))" .
  have "mset (walk_order (nodes_m m)) = mset (map snd ?es)"
    by (simp add: walk_order_entries [of _ 0])
  also have "\<dots> = image_mset (\<lambda>k. the (map_of ?es k)) (mset (map fst ?es))"
    by (rule mset_values_of_alist [OF d])
  also have "\<dots> = image_mset (\<lambda>k. the (imap_get m k)) (mset_set (dom (imap_get m)))"
    unfolding ks mo by (simp add: multiset.map_comp comp_def imap_get_lookup)
  finally show ?thesis .
qed

lemma budget_wraps:
  fixes n :: u64 and r :: c_int
  assumes "uint n < sint r"
  shows "n - word_of_int (sint r) \<noteq> 0 \<and>
         uint (n - word_of_int (sint r)) = 2 ^ 64 + uint n - sint r"
proof -
  have "sint r < 2 ^ (LENGTH(32) - 1)" by (rule sint_lt)
  then have r64: "sint r < 2 ^ 64" by simp
  define w :: u64 where "w = word_of_int (sint r)"
  have uw: "uint w = sint r mod 2 ^ 64"
    unfolding w_def using uint_word_of_int [of "sint r", where 'a = 64] by simp
  have "uint (n - w) = (uint n - uint w) mod 2 ^ 64"
    by (simp add: uint_word_ariths)
  then have "uint (n - w) = (uint n - sint r mod 2 ^ 64) mod 2 ^ 64"
    unfolding uw .
  then have "uint (n - w) = (uint n - sint r) mod 2 ^ 64"
    by (simp only: mod_diff_right_eq)
  then have "uint (n - word_of_int (sint r)) = (uint n - sint r) mod 2 ^ 64"
    unfolding w_def .
  also have "\<dots> = (uint n - sint r + 2 ^ 64) mod 2 ^ 64" by simp
  also have "\<dots> = uint n - sint r + 2 ^ 64"
  proof (rule mod_pos_pos_trivial)
    show "0 \<le> uint n - sint r + 2 ^ 64" using r64 uint_ge_0 [of n] by linarith
    show "uint n - sint r + 2 ^ 64 < 2 ^ 64" using assms by linarith
  qed
  finally have u: "uint (n - word_of_int (sint r)) = 2 ^ 64 + uint n - sint r" by simp
  then have "uint (n - word_of_int (sint r)) \<noteq> 0" using r64 uint_ge_0 [of n] by linarith
  then have "n - word_of_int (sint r) \<noteq> 0" by (metis uint_0_eq)
  then show ?thesis using u by simp
qed

section \<open>The union without the count of frees\<close>

text \<open>
  The recursion of \<open>IMAP_union_ref\<close> and \<open>imap_union_ref\<close> with the count of the calls of
  \<open>free\<close> left out. The count does not influence the other results, so what the union
  does to the entries, the counters and the references is proved on these functions and
  carried over.
\<close>

fun union_ref_core ::
    "'a imap_node \<Rightarrow> 'a imap_node \<Rightarrow> ('a \<Rightarrow> 's \<Rightarrow> 's) \<Rightarrow> 's \<Rightarrow> 'a imap_node \<times> 's"
  and union_loop_core ::
    "'a imap_node list \<Rightarrow> 'a imap_node list \<Rightarrow> ('a \<Rightarrow> 's \<Rightarrow> 's) \<Rightarrow> u64 \<Rightarrow> 's \<Rightarrow>
     'a imap_node list \<times> u64 \<times> 's" where
  "union_ref_core dest (Node d c s) decref st =
     (case c of
        None \<Rightarrow> (dest, st)
      | Some ns \<Rightarrow>
          (case nodes dest of
             None \<Rightarrow> (dest, st)
           | Some dns \<Rightarrow>
               (case union_loop_core dns ns decref (size_n dest) st of
                  (dns', sz', st') \<Rightarrow> (Node (data dest) (Some dns') sz', st'))))"
| "union_loop_core [] ns decref cnt st = ([], cnt, st)"
| "union_loop_core (dest_nd # drest) [] decref cnt st = (dest_nd # drest, cnt, st)"
| "union_loop_core (dest_nd # drest) (Node d c s # rest) decref cnt st =
     (case (case d of
              None \<Rightarrow> (dest_nd, cnt, st)
            | Some v \<Rightarrow>
                if data dest_nd \<noteq> None then (dest_nd, cnt, decref v st)
                else (Node (Some v) (nodes dest_nd) (size_n dest_nd), cnt + 1, st)) of
        (dn1, cnt1, st1) \<Rightarrow>
          (case (case c of
                   None \<Rightarrow> (dn1, cnt1, st1)
                 | Some cs \<Rightarrow>
                     if nodes dn1 \<noteq> None
                     then (case union_ref_core dn1 (Node d c s) decref st1 of
                             (dn', st') \<Rightarrow> (dn', cnt1 + (size_n dn' - size_n dn1), st'))
                     else (Node (data dn1) (Some cs) s, cnt1 + s, st1)) of
             (dn2, cnt2, st2) \<Rightarrow>
               (case union_loop_core drest rest decref cnt2 st2 of
                  (drest', cnt3, st3) \<Rightarrow> (dn2 # drest', cnt3, st3))))"

definition imap_union_core ::
  "'a imap \<Rightarrow> 'a imap \<Rightarrow> ('a \<Rightarrow> 's \<Rightarrow> 's) \<Rightarrow> 's \<Rightarrow> 'a imap \<times> 'a imap option \<times> 's" where
  "imap_union_core dest imap decref st =
     (if len imap \<noteq> 0
      then (case union_loop_core (nodes_m dest) (nodes_m imap) decref (len dest) st of
              (ns', len', st') \<Rightarrow> (Imap len' ns', None, st'))
      else (dest, None, st))"

lemma IMAP_union_core:
  "fst (IMAP_union_ref dest node decref st fr) = fst (union_ref_core dest node decref st) \<and>
   fst (snd (IMAP_union_ref dest node decref st fr)) = snd (union_ref_core dest node decref st)"
  "fst (IMAP_union_loop dns ns decref cnt st fr) = fst (union_loop_core dns ns decref cnt st) \<and>
   fst (snd (IMAP_union_loop dns ns decref cnt st fr)) =
     fst (snd (union_loop_core dns ns decref cnt st)) \<and>
   fst (snd (snd (IMAP_union_loop dns ns decref cnt st fr))) =
     snd (snd (union_loop_core dns ns decref cnt st))"
proof (induction dest node decref st fr and dns ns decref cnt st fr
    rule: IMAP_union_ref_IMAP_union_loop.induct)
  case (1 dest d c s decref st fr)
  then show ?case by (cases c; cases "nodes dest") (simp_all add: split_def)
next
  case (2 ns decref cnt st fr)
  then show ?case by simp
next
  case (3 dest_nd drest decref cnt st fr)
  then show ?case by simp
next
  case (4 dest_nd drest d c s rest decref cnt st fr)
  define ds where "ds =
    (case d of
       None \<Rightarrow> (dest_nd, cnt, st)
     | Some v \<Rightarrow>
         if data dest_nd \<noteq> None then (dest_nd, cnt, decref v st)
         else (Node (Some v) (nodes dest_nd) (size_n dest_nd), cnt + 1, st))"
  obtain dn1 cnt1 st1 where ds: "ds = (dn1, cnt1, st1)" by (cases ds)
  define cs where "cs =
    (case c of
       None \<Rightarrow> (dn1, cnt1, st1, fr)
     | Some cs \<Rightarrow>
         if nodes dn1 \<noteq> None
         then (case IMAP_union_ref dn1 (Node d c s) decref st1 fr of
                 (dn', st', fr') \<Rightarrow> (dn', cnt1 + (size_n dn' - size_n dn1), st', fr'))
         else (Node (data dn1) (Some cs) s, cnt1 + s, st1, fr))"
  obtain dn2 cnt2 st2 fr2 where cs: "cs = (dn2, cnt2, st2, fr2)" by (cases cs)
  define ccs where "ccs =
    (case c of
       None \<Rightarrow> (dn1, cnt1, st1)
     | Some cs \<Rightarrow>
         if nodes dn1 \<noteq> None
         then (case union_ref_core dn1 (Node d c s) decref st1 of
                 (dn', st') \<Rightarrow> (dn', cnt1 + (size_n dn' - size_n dn1), st'))
         else (Node (data dn1) (Some cs) s, cnt1 + s, st1))"
  have IH1: "fst (IMAP_union_ref dn1 (Node d c s) decref st1 fr) =
               fst (union_ref_core dn1 (Node d c s) decref st1) \<and>
             fst (snd (IMAP_union_ref dn1 (Node d c s) decref st1 fr)) =
               snd (union_ref_core dn1 (Node d c s) decref st1)"
    if "c = Some x2" "nodes dn1 \<noteq> None" for x2
    using "4.IH"(1) [of dn1 "(cnt1, st1)" cnt1 st1 x2] ds that unfolding ds_def by simp
  have IH2: "fst (IMAP_union_loop drest rest decref cnt2 st2 fr2) =
               fst (union_loop_core drest rest decref cnt2 st2) \<and>
             fst (snd (IMAP_union_loop drest rest decref cnt2 st2 fr2)) =
               fst (snd (union_loop_core drest rest decref cnt2 st2)) \<and>
             fst (snd (snd (IMAP_union_loop drest rest decref cnt2 st2 fr2))) =
               snd (snd (union_loop_core drest rest decref cnt2 st2))"
    using "4.IH"(2) [of dn1 "(cnt1, st1)" cnt1 st1 dn2 "(cnt2, st2, fr2)" cnt2 "(st2, fr2)" st2 fr2]
      ds cs unfolding ds_def cs_def by simp
  have ccs: "ccs = (dn2, cnt2, st2)"
  proof (cases c)
    case None
    then show ?thesis using cs unfolding cs_def ccs_def by simp
  next
    case (Some x2)
    show ?thesis
    proof (cases "nodes dn1 = None")
      case True
      then show ?thesis using cs Some unfolding cs_def ccs_def by simp
    next
      case False
      obtain dn' st' fr' where
        r: "IMAP_union_ref dn1 (Node d c s) decref st1 fr = (dn', st', fr')"
        by (cases "IMAP_union_ref dn1 (Node d c s) decref st1 fr")
      have "union_ref_core dn1 (Node d c s) decref st1 = (dn', st')"
        using IH1 [OF Some False] unfolding r
        by (cases "union_ref_core dn1 (Node d c s) decref st1") simp
      then show ?thesis
        using cs Some False r unfolding cs_def ccs_def
        by (auto simp del: IMAP_union_ref.simps union_ref_core.simps)
    qed
  qed
  have L: "IMAP_union_loop (dest_nd # drest) (Node d c s # rest) decref cnt st fr =
      (case IMAP_union_loop drest rest decref cnt2 st2 fr2 of
         (drest', cnt3, st3, fr3) \<Rightarrow> (dn2 # drest', cnt3, st3, fr3))"
    using ds cs unfolding ds_def cs_def by (simp del: IMAP_union_ref.simps)
  have R: "union_loop_core (dest_nd # drest) (Node d c s # rest) decref cnt st =
      (case union_loop_core drest rest decref cnt2 st2 of
         (drest', cnt3, st3) \<Rightarrow> (dn2 # drest', cnt3, st3))"
    using ds ccs unfolding ds_def ccs_def by (simp del: union_ref_core.simps)
  show ?case unfolding L R using IH2 by (simp add: split_def)
qed

lemma imap_union_core:
  "imap_union_ref dest src decref st =
     (case imap_union_core dest src decref st of
        (dest', handle, st') \<Rightarrow> (dest', handle, st', snd (snd (snd (imap_union_ref dest src decref st)))))"
  using IMAP_union_core(2) [of "nodes_m dest" "nodes_m src" decref "len dest" st 0]
  by (simp add: imap_union_ref_def imap_union_core_def split_def)

section \<open>The union keeps the entries of both maps\<close>

text \<open>The values for which \<open>decref\<close> is called, in the order of the calls: those of the
  source whose slot in the destination holds a value too.\<close>

fun dup_values :: "'a imap_node list \<Rightarrow> 'a imap_node list \<Rightarrow> 'a list" where
  "dup_values (dn # drest) (Node d c s # rest) =
     (case d of None \<Rightarrow> [] | Some v \<Rightarrow> if data dn \<noteq> None then [v] else []) @
     (case c of
        None \<Rightarrow> []
      | Some cs \<Rightarrow> (case nodes dn of None \<Rightarrow> [] | Some dcs \<Rightarrow> dup_values dcs cs)) @
     dup_values drest rest"
| "dup_values [] ns = []"
| "dup_values dns [] = []"

text \<open>
  The remaining definitions of this section serve the proofs: the two steps of the loop
  body (\<open>union_data\<close>, \<open>union_children\<close>), the number of entries of a slot, the bound on
  the keys below a node, and what the union achieves on a slot (\<open>merged\<close>), on a node
  (\<open>ref_post\<close>) and on a map (\<open>union_post\<close>).
\<close>

definition slot_count :: "'a imap_node \<Rightarrow> nat" where
  "slot_count nd = count_slots [nd]"

lemma count_slots_Cons: "count_slots (nd # rest) = slot_count nd + count_slots rest"
  by (cases nd) (simp add: slot_count_def)

lemma slot_count_sel:
  "slot_count nd =
     (if data nd = None then 0 else 1) +
     (case nodes nd of None \<Rightarrow> 0 | Some cs \<Rightarrow> count_slots cs)"
  by (cases nd) (simp add: slot_count_def)

definition bounded_node :: "'a imap_node \<Rightarrow> bool" where
  "bounded_node nd = (\<forall>k \<in> dom (lookup_node nd). k < 2 ^ 64 - 1)"

definition merged :: "'a imap_node \<Rightarrow> 'a imap_node \<Rightarrow> 'a imap_node \<Rightarrow> bool" where
  "merged dn nd dn' =
     (wf_node dn' \<and>
      (\<forall>q. slot_get dn' q = (case slot_get dn q of Some v \<Rightarrow> Some v | None \<Rightarrow> slot_get nd q)))"

definition union_data ::
  "'a imap_node \<Rightarrow> 'a option \<Rightarrow> ('a \<Rightarrow> 's \<Rightarrow> 's) \<Rightarrow> u64 \<Rightarrow> 's \<Rightarrow> 'a imap_node \<times> u64 \<times> 's" where
  "union_data dest_nd d decref cnt st =
     (case d of
        None \<Rightarrow> (dest_nd, cnt, st)
      | Some v \<Rightarrow>
          if data dest_nd \<noteq> None then (dest_nd, cnt, decref v st)
          else (Node (Some v) (nodes dest_nd) (size_n dest_nd), cnt + 1, st))"

definition union_children ::
  "'a imap_node \<Rightarrow> 'a imap_node \<Rightarrow> ('a \<Rightarrow> 's \<Rightarrow> 's) \<Rightarrow> u64 \<Rightarrow> 's \<Rightarrow> 'a imap_node \<times> u64 \<times> 's" where
  "union_children dn1 nd decref cnt1 st1 =
     (case nodes nd of
        None \<Rightarrow> (dn1, cnt1, st1)
      | Some cs \<Rightarrow>
          if nodes dn1 \<noteq> None
          then (case union_ref_core dn1 nd decref st1 of
                  (dn', st') \<Rightarrow> (dn', cnt1 + (size_n dn' - size_n dn1), st'))
          else (Node (data dn1) (Some cs) (size_n nd), cnt1 + size_n nd, st1))"

lemma union_loop_core_Cons:
  "union_loop_core (dn # drest) (nd # rest) decref cnt st =
     (case union_data dn (data nd) decref cnt st of
        (dn1, cnt1, st1) \<Rightarrow>
          (case union_children dn1 nd decref cnt1 st1 of
             (dn2, cnt2, st2) \<Rightarrow>
               (case union_loop_core drest rest decref cnt2 st2 of
                  (drest', cnt3, st3) \<Rightarrow> (dn2 # drest', cnt3, st3))))"
  by (cases nd)
     (simp add: union_data_def union_children_def
        cong: option.case_cong prod.case_cong if_cong)

lemma union_ref_core_unfold:
  "nodes dest = Some dcs \<Longrightarrow> nodes node = Some cs \<Longrightarrow>
   union_ref_core dest node decref st =
     (case union_loop_core dcs cs decref (size_n dest) st of
        (dns', sz', st') \<Rightarrow> (Node (data dest) (Some dns') sz', st'))"
  by (cases node) simp

lemma dup_values_Cons:
  "dup_values (dn # drest) (nd # rest) =
     (case data nd of None \<Rightarrow> [] | Some v \<Rightarrow> if data dn \<noteq> None then [v] else []) @
     (case nodes nd of
        None \<Rightarrow> []
      | Some cs \<Rightarrow> (case nodes dn of None \<Rightarrow> [] | Some dcs \<Rightarrow> dup_values dcs cs)) @
     dup_values drest rest"
  by (cases nd) simp

declare union_ref_core.simps [simp del] union_loop_core.simps(3) [simp del]

lemma wf_size_count: "wf_node nd \<Longrightarrow> nodes nd = Some cs \<Longrightarrow> size_n nd = of_nat (count_slots cs)"
proof -
  assume "wf_node nd" "nodes nd = Some cs"
  then have "unat (size_n nd) = count_slots cs"
    by (simp add: wf_node_sel count_slots_entries [of cs 0])
  then have "of_nat (unat (size_n nd)) = (of_nat (count_slots cs) :: u64)" by simp
  then show ?thesis by simp
qed

lemma wf_size_none: "wf_node nd \<Longrightarrow> nodes nd = None \<Longrightarrow> size_n nd = 0"
  by (simp add: wf_node_sel)

definition ref_post ::
  "'a imap_node \<Rightarrow> 'a imap_node \<Rightarrow> ('a \<Rightarrow> 's \<Rightarrow> 's) \<Rightarrow> 's \<Rightarrow> bool" where
  "ref_post dest node decref st =
     (\<exists>dns' sz'.
        union_ref_core dest node decref st =
          (Node (data dest) (Some dns') sz',
           fold decref (dup_values (the (nodes dest)) (the (nodes node))) st) \<and>
        wf_node (Node (data dest) (Some dns') sz') \<and>
        lookup_slots dns' = lookup_node node ++ lookup_node dest)"

definition slot_dups :: "'a imap_node \<Rightarrow> 'a imap_node \<Rightarrow> 'a list" where
  "slot_dups dn nd =
     (case data nd of None \<Rightarrow> [] | Some v \<Rightarrow> if data dn \<noteq> None then [v] else []) @
     (case nodes nd of
        None \<Rightarrow> []
      | Some cs \<Rightarrow> (case nodes dn of None \<Rightarrow> [] | Some dcs \<Rightarrow> dup_values dcs cs))"

lemma dup_values_slot:
  "dup_values (dn # drest) (nd # rest) = slot_dups dn nd @ dup_values drest rest"
  by (simp add: dup_values_Cons slot_dups_def)

lemma slot_union_correct:
  assumes wfd: "wf_node dn" and wfs: "wf_node nd"
    and IH: "\<And>dn1 st1. nodes dn1 \<noteq> None \<Longrightarrow> nodes nd \<noteq> None \<Longrightarrow> wf_node dn1 \<Longrightarrow>
               lookup_node dn1 = lookup_node dn \<Longrightarrow> ref_post dn1 nd decref st1"
  shows "\<exists>dn2 cnt2.
           (case union_data dn (data nd) decref cnt st of
              (dn1, cnt1, st1) \<Rightarrow> union_children dn1 nd decref cnt1 st1) =
             (dn2, cnt2, fold decref (slot_dups dn nd) st) \<and>
           merged dn nd dn2 \<and>
           cnt2 + of_nat (slot_count dn) = cnt + of_nat (slot_count dn2)"
proof -
  let ?new = "data nd \<noteq> None \<and> data dn = None"
  let ?dd = "case data nd of None \<Rightarrow> [] | Some v \<Rightarrow> if data dn \<noteq> None then [v] else []"
  obtain dn1 cnt1 st1 where ud: "union_data dn (data nd) decref cnt st = (dn1, cnt1, st1)"
    by (cases "union_data dn (data nd) decref cnt st")
  have n1: "nodes dn1 = nodes dn" and s1: "size_n dn1 = size_n dn"
    and d1: "data dn1 = (case data dn of Some x \<Rightarrow> Some x | None \<Rightarrow> data nd)"
    and c1: "cnt1 = cnt + (if ?new then 1 else 0)"
    and t1: "st1 = fold decref ?dd st"
    using ud by (auto simp: union_data_def split: option.splits if_splits)
  have wf1: "wf_node dn1" using wfd n1 s1 by (auto simp: wf_node_sel split: option.splits)
  have l1: "lookup_node dn1 = lookup_node dn" using n1 by (simp add: lookup_node_def)
  have sc1: "slot_count dn1 = slot_count dn + (if ?new then 1 else 0)"
    using n1 d1 by (auto simp: slot_count_sel split: option.splits)
  have g0: "slot_get dn1 0 = (case slot_get dn 0 of Some v \<Rightarrow> Some v | None \<Rightarrow> slot_get nd 0)"
    using d1 by (simp add: slot_get_0 split: option.splits)
  show ?thesis
  proof (cases "nodes nd")
    case None
    have ln: "lookup_node nd = Map.empty" using None by (simp add: lookup_node_def)
    have "merged dn nd dn1"
      unfolding merged_def
    proof (intro conjI allI)
      fix q show "slot_get dn1 q = (case slot_get dn q of Some v \<Rightarrow> Some v | None \<Rightarrow> slot_get nd q)"
        using g0 l1 ln by (cases q) (auto simp: slot_get_Suc split: option.splits)
    qed (rule wf1)
    then show ?thesis
      using ud None c1 t1 sc1 by (simp add: union_children_def slot_dups_def)
  next
    case (Some cs)
    show ?thesis
    proof (cases "nodes dn1")
      case None
      let ?dn2 = "Node (data dn1) (Some cs) (size_n nd)"
      have l0: "lookup_node dn1 = Map.empty" using None by (simp add: lookup_node_def)
      have wf2: "wf_node ?dn2" using wfs Some by (simp add: wf_node_sel)
      have "merged dn nd ?dn2"
        unfolding merged_def
      proof (intro conjI allI)
        fix q show "slot_get ?dn2 q = (case slot_get dn q of Some v \<Rightarrow> Some v | None \<Rightarrow> slot_get nd q)"
          using g0 l1 l0 Some
          by (cases q) (auto simp: slot_get_Suc slot_get_0 lookup_node_def split: option.splits)
      qed (rule wf2)
      moreover have "cnt1 + size_n nd + of_nat (slot_count dn) = cnt + of_nat (slot_count ?dn2)"
        using c1 sc1 None n1 d1 wf_size_count [OF wfs Some]
        by (auto simp: slot_count_sel split: option.splits)
      moreover have "slot_dups dn nd = ?dd"
        using Some None n1 by (simp add: slot_dups_def)
      ultimately show ?thesis
        using ud Some None t1 by (simp add: union_children_def)
    next
      case dcs: (Some dcs)
      have "ref_post dn1 nd decref st1"
        using IH [of dn1 st1] dcs Some wf1 l1 by simp
      then obtain dns' sz' where
        r: "union_ref_core dn1 nd decref st1 =
              (Node (data dn1) (Some dns') sz', fold decref (dup_values dcs cs) st1)"
        and wf2: "wf_node (Node (data dn1) (Some dns') sz')"
        and lk: "lookup_slots dns' = lookup_node nd ++ lookup_node dn1"
        using dcs Some by (auto simp: ref_post_def)
      let ?dn2 = "Node (data dn1) (Some dns') sz'"
      have "merged dn nd ?dn2"
        unfolding merged_def
      proof (intro conjI allI)
        fix q show "slot_get ?dn2 q = (case slot_get dn q of Some v \<Rightarrow> Some v | None \<Rightarrow> slot_get nd q)"
          using g0 l1 lk
          by (cases q)
             (auto simp: slot_get_Suc slot_get_0 lookup_node_def map_add_def split: option.splits)
      qed (rule wf2)
      moreover have "cnt1 + (sz' - size_n dn1) + of_nat (slot_count dn) =
          cnt + of_nat (slot_count ?dn2)"
      proof -
        have a: "sz' = of_nat (count_slots dns')"
          using wf_size_count [OF wf2] by simp
        have b: "size_n dn1 = of_nat (count_slots dcs)"
          using wf_size_count [OF wf1 dcs] .
        have c: "slot_count dn = (if data dn = None then 0 else 1) + count_slots dcs"
          using dcs n1 by (simp add: slot_count_sel)
        have n: "nodes dn = Some dcs" using dcs n1 by simp
        show ?thesis
          using d1 by (auto simp: a b n c1 slot_count_sel split: option.splits)
      qed
      moreover have "slot_dups dn nd = ?dd @ dup_values dcs cs"
        using Some dcs n1 by (simp add: slot_dups_def)
      ultimately show ?thesis
        using ud Some dcs t1 r by (simp add: union_children_def)
    qed
  qed
qed


lemma loop_union_correct:
  assumes "length dns = length ns"
    and "\<forall>n \<in> set dns. wf_node n" and "\<forall>n \<in> set ns. wf_node n"
    and "\<And>nd dn1 st1. nd \<in> set ns \<Longrightarrow> nodes dn1 \<noteq> None \<Longrightarrow> nodes nd \<noteq> None \<Longrightarrow>
           wf_node dn1 \<Longrightarrow> (\<exists>dn \<in> set dns. lookup_node dn1 = lookup_node dn) \<Longrightarrow>
           ref_post dn1 nd decref st1"
  shows "\<exists>dns' cnt'.
           union_loop_core dns ns decref cnt st =
             (dns', cnt', fold decref (dup_values dns ns) st) \<and>
           length dns' = length dns \<and>
           (\<forall>i < length dns. merged (dns ! i) (ns ! i) (dns' ! i)) \<and>
           cnt' + of_nat (count_slots dns) = cnt + of_nat (count_slots dns')"
  using assms
proof (induction dns ns arbitrary: cnt st rule: list_induct2)
  case Nil
  then show ?case by simp
next
  case (Cons dn drest nd rest)
  have "\<exists>dn2 cnt2.
           (case union_data dn (data nd) decref cnt st of
              (dn1, cnt1, st1) \<Rightarrow> union_children dn1 nd decref cnt1 st1) =
             (dn2, cnt2, fold decref (slot_dups dn nd) st) \<and>
           merged dn nd dn2 \<and>
           cnt2 + of_nat (slot_count dn) = cnt + of_nat (slot_count dn2)"
    using Cons.prems(1,2) by (intro slot_union_correct Cons.prems(3)) auto
  then obtain dn2 cnt2 where
    slot: "(case union_data dn (data nd) decref cnt st of
              (dn1, cnt1, st1) \<Rightarrow> union_children dn1 nd decref cnt1 st1) =
             (dn2, cnt2, fold decref (slot_dups dn nd) st)"
    and m: "merged dn nd dn2"
    and c: "cnt2 + of_nat (slot_count dn) = cnt + of_nat (slot_count dn2)"
    by blast
  have "\<exists>dns' cnt'.
           union_loop_core drest rest decref cnt2 (fold decref (slot_dups dn nd) st) =
             (dns', cnt', fold decref (dup_values drest rest) (fold decref (slot_dups dn nd) st)) \<and>
           length dns' = length drest \<and>
           (\<forall>i < length drest. merged (drest ! i) (rest ! i) (dns' ! i)) \<and>
           cnt' + of_nat (count_slots drest) = cnt2 + of_nat (count_slots dns')"
    using Cons.prems(1,2) by (intro Cons.IH Cons.prems(3)) auto
  then obtain drest' cnt3 where
    loop: "union_loop_core drest rest decref cnt2 (fold decref (slot_dups dn nd) st) =
             (drest', cnt3, fold decref (dup_values drest rest) (fold decref (slot_dups dn nd) st))"
    and len: "length drest' = length drest"
    and ms: "\<forall>i < length drest. merged (drest ! i) (rest ! i) (drest' ! i)"
    and c3: "cnt3 + of_nat (count_slots drest) = cnt2 + of_nat (count_slots drest')"
    by blast
  have res: "union_loop_core (dn # drest) (nd # rest) decref cnt st =
      (dn2 # drest', cnt3, fold decref (dup_values (dn # drest) (nd # rest)) st)"
    using slot loop
    by (simp add: union_loop_core_Cons dup_values_slot split: prod.splits)
  have all: "\<forall>i < length (dn # drest). merged ((dn # drest) ! i) ((nd # rest) ! i) ((dn2 # drest') ! i)"
    using m ms by (auto simp: nth_Cons split: nat.splits)
  have cnt: "cnt3 + of_nat (count_slots (dn # drest)) = cnt + of_nat (count_slots (dn2 # drest'))"
  proof -
    have "cnt3 + of_nat (count_slots (dn # drest)) =
          (cnt3 + of_nat (count_slots drest)) + of_nat (slot_count dn)"
      by (simp add: count_slots_Cons)
    also have "\<dots> = (cnt2 + of_nat (slot_count dn)) + of_nat (count_slots drest')"
      unfolding c3 by simp
    also have "\<dots> = cnt + of_nat (count_slots (dn2 # drest'))"
      unfolding c by (simp add: count_slots_Cons)
    finally show ?thesis .
  qed
  show ?case using res len all cnt by simp
qed

lemma bounded_children:
  assumes "\<forall>k \<in> dom (lookup_slots cs). k < 2 ^ 64 - 1" and "length cs = 32" and "n \<in> set cs"
  shows "bounded_node n"
proof -
  obtain i where i: "i < 32" "n = cs ! i"
    using assms(2,3) by (auto simp: in_set_conv_nth)
  show ?thesis
    unfolding bounded_node_def i(2) by (rule child_bound [OF i(1) assms(1)])
qed

lemma merged_lookup:
  assumes len: "length dns = 32" "length ns = 32" "length dns' = 32"
    and m: "\<forall>i < 32. merged (dns ! i) (ns ! i) (dns' ! i)"
  shows "lookup_slots dns' = lookup_slots ns ++ lookup_slots dns"
proof
  fix K
  have "K mod 32 < (32 :: nat)" by simp
  then have "merged (dns ! (K mod 32)) (ns ! (K mod 32)) (dns' ! (K mod 32))"
    using m by blast
  then show "lookup_slots dns' K = (lookup_slots ns ++ lookup_slots dns) K"
    by (simp add: lookup_slots_slot merged_def map_add_def split: option.splits)
qed

lemma merged_wf:
  assumes "length dns' = n" and "\<forall>i < n. merged (dns ! i) (ns ! i) (dns' ! i)"
  shows "wf_slots dns'"
  unfolding wf_slots_all using assms by (auto simp: in_set_conv_nth merged_def)

lemma unat_count_bounded:
  assumes wf: "wf_slots ns" "length ns = 32"
    and b: "\<forall>k \<in> dom (lookup_slots ns). k < B" and B: "B < 2 ^ 64"
  shows "unat (of_nat (count_slots ns) :: u64) = length (entries_slots 0 ns)"
proof -
  have "length (entries_slots 0 ns) = card (dom (lookup_slots ns))"
    by (rule length_entries_card [OF wf])
  also have "\<dots> \<le> B" by (rule card_bounded_keys [OF b])
  finally have "count_slots ns < 2 ^ 64"
    using B by (simp add: count_slots_entries [of ns 0])
  then show ?thesis
    by (simp add: unat_of_nat count_slots_entries [of ns 0])
qed

lemma union_ref_core_correct:
  assumes "wf_node dest" "wf_node node" "bounded_node dest" "bounded_node node"
    and "nodes dest \<noteq> None" "nodes node \<noteq> None"
  shows "ref_post dest node decref st"
  using assms
proof (induction node arbitrary: dest st)
  case (Node d c s dest st)
  from Node.prems(6) obtain cs where c: "c = Some cs" by auto
  from Node.prems(5) obtain dcs where dcs: "nodes dest = Some dcs" by auto
  have wfs: "wf_slots cs" "length cs = 32"
    using Node.prems(2) c by (simp_all add: wf_node_Node)
  have wfd: "wf_slots dcs" "length dcs = 32"
    using Node.prems(1) dcs by (simp_all add: wf_node_sel)
  have bs: "\<forall>k \<in> dom (lookup_slots cs). k < 2 ^ 64 - 1"
    using Node.prems(4) c by (simp add: bounded_node_def lookup_node_def)
  have bd: "\<forall>k \<in> dom (lookup_slots dcs). k < 2 ^ 64 - 1"
    using Node.prems(3) dcs by (simp add: bounded_node_def lookup_node_def)
  have IH: "\<And>nd dn1 st1. nd \<in> set cs \<Longrightarrow> nodes dn1 \<noteq> None \<Longrightarrow> nodes nd \<noteq> None \<Longrightarrow>
           wf_node dn1 \<Longrightarrow> (\<exists>dn \<in> set dcs. lookup_node dn1 = lookup_node dn) \<Longrightarrow>
           ref_post dn1 nd decref st1"
  proof -
    fix nd dn1 st1
    assume nd: "nd \<in> set cs" and n1: "nodes dn1 \<noteq> None" and n2: "nodes nd \<noteq> None"
      and w1: "wf_node dn1" and l: "\<exists>dn \<in> set dcs. lookup_node dn1 = lookup_node dn"
    have "wf_node nd" using wfs(1) nd by (simp add: wf_slots_all)
    moreover have "bounded_node nd" by (rule bounded_children [OF bs wfs(2) nd])
    moreover have "bounded_node dn1"
    proof -
      obtain dn where "dn \<in> set dcs" "lookup_node dn1 = lookup_node dn" using l by blast
      then show ?thesis
        using bounded_children [OF bd wfd(2), of dn] by (simp add: bounded_node_def)
    qed
    ultimately show "ref_post dn1 nd decref st1"
      using Node.IH [of cs nd dn1 st1] c nd n1 n2 w1 by simp
  qed
  have "\<exists>dns' cnt'.
           union_loop_core dcs cs decref (size_n dest) st =
             (dns', cnt', fold decref (dup_values dcs cs) st) \<and>
           length dns' = length dcs \<and>
           (\<forall>i < length dcs. merged (dcs ! i) (cs ! i) (dns' ! i)) \<and>
           cnt' + of_nat (count_slots dcs) = size_n dest + of_nat (count_slots dns')"
    using wfd wfs by (intro loop_union_correct IH) (simp_all add: wf_slots_all)
  then obtain dns' cnt' where
    loop: "union_loop_core dcs cs decref (size_n dest) st =
             (dns', cnt', fold decref (dup_values dcs cs) st)"
    and len: "length dns' = 32"
    and m: "\<forall>i < 32. merged (dcs ! i) (cs ! i) (dns' ! i)"
    and cnt: "cnt' + of_nat (count_slots dcs) = size_n dest + of_nat (count_slots dns')"
    using wfd(2) by auto
  have lk: "lookup_slots dns' = lookup_slots cs ++ lookup_slots dcs"
    by (rule merged_lookup [OF wfd(2) wfs(2) len m])
  have wf': "wf_slots dns'" by (rule merged_wf [OF len m])
  have b': "\<forall>k \<in> dom (lookup_slots dns'). k < 2 ^ 64 - 1"
    unfolding lk using bs bd by auto
  have "size_n dest = of_nat (count_slots dcs)"
    by (rule wf_size_count [OF Node.prems(1) dcs])
  then have "cnt' = of_nat (count_slots dns')" using cnt by simp
  then have "unat cnt' = length (entries_slots 0 dns')"
    using unat_count_bounded [OF wf' len b'] by simp
  then have "wf_node (Node (data dest) (Some dns') cnt')"
    using wf' len by (simp add: wf_node_Node)
  moreover have "union_ref_core dest (Node d c s) decref st =
      (Node (data dest) (Some dns') cnt', fold decref (dup_values dcs cs) st)"
    using loop dcs c by (simp add: union_ref_core_unfold)
  ultimately show ?case
    using lk dcs c by (auto simp: ref_post_def lookup_node_def)
qed

lemma entries_slots_sel:
  "entries_slots i (nd # rest) = slot_entries i (data nd) (nodes nd) @ entries_slots (Suc i) rest"
  by (cases nd) (simp add: slot_entries_def)

lemma slot_entries_keys:
  "i < 32 \<Longrightarrow> e \<in> set (slot_entries i d c) \<Longrightarrow> fst e mod 32 = i"
  by (auto simp: slot_entries_def shift_key_mod split: option.splits)

lemma entries_keys_mod': 
  "i + length ns \<le> 32 \<Longrightarrow> e \<in> set (entries_slots i ns) \<Longrightarrow>
   i \<le> fst e mod 32 \<and> fst e mod 32 < i + length ns"
  using entries_keys_mod [of i ns "fst e" "snd e"] by simp

lemma filter_shift:
  "filter (\<lambda>e. fst e \<in> shift_key i ` A) (map (\<lambda>(k, v). (shift_key i k, v)) es) =
   map (\<lambda>(k, v). (shift_key i k, v)) (filter (\<lambda>e. fst e \<in> A) es)"
  by (induction es) (auto dest: shift_key_inj)

lemma map_snd_shift: "map snd (map (\<lambda>(k, v). (shift_key i k, v)) es) = map snd es"
  by (induction es) auto

lemma slot_entries_key_set:
  "fst ` set (slot_entries i d c) =
     (case d of None \<Rightarrow> {} | Some v \<Rightarrow> {i}) \<union>
     (case c of None \<Rightarrow> {} | Some cs \<Rightarrow> shift_key i ` fst ` set (entries_slots 0 cs))"
  by (auto simp: slot_entries_def image_iff split: option.splits) force+

lemma shift_key_neq: "shift_key i k \<noteq> i"
  by (simp add: shift_key_def)

lemma slot_dups_entries:
  assumes sub: "\<And>cs dcs. c = Some cs \<Longrightarrow> dc = Some dcs \<Longrightarrow>
      dup_values dcs cs =
        map snd (filter (\<lambda>e. fst e \<in> fst ` set (entries_slots 0 dcs)) (entries_slots 0 cs))"
  shows "(case d of None \<Rightarrow> [] | Some v \<Rightarrow> if dd \<noteq> None then [v] else []) @
         (case c of
            None \<Rightarrow> []
          | Some cs \<Rightarrow> (case dc of None \<Rightarrow> [] | Some dcs \<Rightarrow> dup_values dcs cs)) =
         map snd (filter (\<lambda>e. fst e \<in> fst ` set (slot_entries i dd dc)) (slot_entries i d c))"
proof -
  let ?K = "fst ` set (slot_entries i dd dc)"
  have data: "map snd (filter (\<lambda>e. fst e \<in> ?K) (case d of None \<Rightarrow> [] | Some v \<Rightarrow> [(i, v)])) =
        (case d of None \<Rightarrow> [] | Some v \<Rightarrow> if dd \<noteq> None then [v] else [])"
    unfolding slot_entries_key_set
    by (cases d; cases dd; cases dc) (auto simp: shift_key_neq [symmetric])
  have children: "map snd (filter (\<lambda>e. fst e \<in> ?K)
          (case c of None \<Rightarrow> []
           | Some cs \<Rightarrow> map (\<lambda>(k, v). (shift_key i k, v)) (entries_slots 0 cs))) =
        (case c of
            None \<Rightarrow> []
          | Some cs \<Rightarrow> (case dc of None \<Rightarrow> [] | Some dcs \<Rightarrow> dup_values dcs cs))"
  proof (cases c)
    case None
    then show ?thesis by simp
  next
    case (Some cs)
    let ?sh = "map (\<lambda>(k, v). (shift_key i k, v)) (entries_slots 0 cs)"
    have inK: "\<And>e. e \<in> set ?sh \<Longrightarrow>
        (fst e \<in> ?K) =
        (fst e \<in> shift_key i ` (case dc of None \<Rightarrow> {} | Some dcs \<Rightarrow> fst ` set (entries_slots 0 dcs)))"
      unfolding slot_entries_key_set
      by (cases dd; cases dc) (auto simp: shift_key_neq)
    have "filter (\<lambda>e. fst e \<in> ?K) ?sh =
          filter (\<lambda>e. fst e \<in> shift_key i `
            (case dc of None \<Rightarrow> {} | Some dcs \<Rightarrow> fst ` set (entries_slots 0 dcs))) ?sh"
      by (rule filter_cong [OF refl inK])
    also have "\<dots> = map (\<lambda>(k, v). (shift_key i k, v))
          (filter (\<lambda>e. fst e \<in> (case dc of None \<Rightarrow> {} | Some dcs \<Rightarrow> fst ` set (entries_slots 0 dcs)))
            (entries_slots 0 cs))"
      by (rule filter_shift)
    finally have "map snd (filter (\<lambda>e. fst e \<in> ?K) ?sh) =
        map snd (filter (\<lambda>e. fst e \<in> (case dc of None \<Rightarrow> {} | Some dcs \<Rightarrow> fst ` set (entries_slots 0 dcs)))
            (entries_slots 0 cs))"
      by (simp only: map_snd_shift)
    also have "\<dots> = (case dc of None \<Rightarrow> [] | Some dcs \<Rightarrow> dup_values dcs cs)"
      using sub [OF Some] by (cases dc) simp_all
    finally show ?thesis using Some by simp
  qed
  show ?thesis
    unfolding slot_entries_def [of i d c] filter_append map_append data children ..
qed

lemma dup_values_entries:
  "length dns = length ns \<Longrightarrow> i + length ns \<le> 32 \<Longrightarrow> wf_slots dns \<Longrightarrow> wf_slots ns \<Longrightarrow>
   dup_values dns ns =
     map snd (filter (\<lambda>e. fst e \<in> fst ` set (entries_slots i dns)) (entries_slots i ns))"
proof (induction dns ns arbitrary: i rule: dup_values.induct)
  case (1 dn drest d c s rest)
  let ?nd = "Node d c s"
  have i: "i < 32" using "1.prems" by simp
  have wfdn: "wf_node dn" and wfdr: "wf_slots drest"
    using "1.prems"(3) by (simp_all add: wf_slots_Cons)
  have wfnd: "wf_node ?nd" and wfr: "wf_slots rest"
    using "1.prems"(4) by (simp_all add: wf_slots_Cons)
  have sub: "\<And>cs dcs. c = Some cs \<Longrightarrow> nodes dn = Some dcs \<Longrightarrow>
      dup_values dcs cs =
        map snd (filter (\<lambda>e. fst e \<in> fst ` set (entries_slots 0 dcs)) (entries_slots 0 cs))"
  proof -
    fix cs dcs assume c: "c = Some cs" and dc: "nodes dn = Some dcs"
    have "length cs = 32" "wf_slots cs" using wfnd c by (simp_all add: wf_node_Node)
    moreover have "length dcs = 32" "wf_slots dcs" using wfdn dc by (simp_all add: wf_node_sel)
    ultimately show "dup_values dcs cs =
        map snd (filter (\<lambda>e. fst e \<in> fst ` set (entries_slots 0 dcs)) (entries_slots 0 cs))"
      using "1.IH"(1) [OF c dc, of 0] by simp
  qed
  have rest: "dup_values drest rest =
      map snd (filter (\<lambda>e. fst e \<in> fst ` set (entries_slots (Suc i) drest))
        (entries_slots (Suc i) rest))"
    using "1.IH"(2) [of "Suc i"] "1.prems"(1,2) wfdr wfr by simp
  let ?KS = "fst ` set (slot_entries i (data dn) (nodes dn))"
  let ?KR = "fst ` set (entries_slots (Suc i) drest)"
  have f1: "filter (\<lambda>e. fst e \<in> ?KS \<union> ?KR) (slot_entries i d c) =
            filter (\<lambda>e. fst e \<in> ?KS) (slot_entries i d c)"
  proof (rule filter_cong [OF refl])
    fix e assume "e \<in> set (slot_entries i d c)"
    then have "fst e mod 32 = i" using i by (rule slot_entries_keys [rotated])
    moreover have "\<And>k. k \<in> ?KR \<Longrightarrow> k mod 32 \<noteq> i"
      using entries_keys_mod' [of "Suc i" drest] "1.prems"(1,2) by fastforce
    ultimately show "(fst e \<in> ?KS \<union> ?KR) = (fst e \<in> ?KS)" by blast
  qed
  have f2: "filter (\<lambda>e. fst e \<in> ?KS \<union> ?KR) (entries_slots (Suc i) rest) =
            filter (\<lambda>e. fst e \<in> ?KR) (entries_slots (Suc i) rest)"
  proof (rule filter_cong [OF refl])
    fix e assume "e \<in> set (entries_slots (Suc i) rest)"
    then have "fst e mod 32 \<noteq> i"
      using entries_keys_mod' [of "Suc i" rest e] "1.prems"(2) by simp
    moreover have "\<And>k. k \<in> ?KS \<Longrightarrow> k mod 32 = i"
      using slot_entries_keys [OF i] by blast
    ultimately show "(fst e \<in> ?KS \<union> ?KR) = (fst e \<in> ?KR)" by blast
  qed
  have "dup_values (dn # drest) (?nd # rest) =
      map snd (filter (\<lambda>e. fst e \<in> ?KS) (slot_entries i d c)) @ dup_values drest rest"
    using slot_dups_entries [where c = c and dc = "nodes dn" and d = d and dd = "data dn"
        and i = i, OF sub]
    by simp
  then show ?case
    unfolding entries_slots_sel [of i dn] entries_slots_Cons set_append image_Un
      filter_append map_append f1 f2 rest
    by simp
next
  case (2 ns)
  then show ?case by simp
next
  case (3 dns)
  then show ?case by simp
qed

lemma mset_filter_alist:
  "distinct (map fst es) \<Longrightarrow>
   mset (map snd (filter (\<lambda>e. fst e \<in> A) es)) =
     image_mset (\<lambda>k. the (map_of es k)) (mset_set (A \<inter> fst ` set es))"
proof (induction es)
  case Nil
  then show ?case by simp
next
  case (Cons e es)
  obtain k v where e: "e = (k, v)" by (cases e)
  have knew: "k \<notin> fst ` set es" and d: "distinct (map fst es)"
    using Cons.prems e by simp_all
  have fin: "finite (A \<inter> fst ` set es)" by simp
  have cong: "image_mset (\<lambda>k'. the (map_of (e # es) k')) (mset_set (A \<inter> fst ` set es)) =
              image_mset (\<lambda>k'. the (map_of es k')) (mset_set (A \<inter> fst ` set es))"
    using knew e by (intro image_mset_cong) auto
  show ?case
  proof (cases "k \<in> A")
    case True
    then have "A \<inter> fst ` set (e # es) = insert k (A \<inter> fst ` set es)"
      using e by auto
    moreover have "k \<notin> A \<inter> fst ` set es" using knew by simp
    ultimately have "mset_set (A \<inter> fst ` set (e # es)) = add_mset k (mset_set (A \<inter> fst ` set es))"
      using fin by simp
    then show ?thesis
      using True e Cons.IH [OF d] cong by simp
  next
    case False
    then have "A \<inter> fst ` set (e # es) = A \<inter> fst ` set es"
      using e by auto
    then show ?thesis
      using False e Cons.IH [OF d] cong by simp
  qed
qed

lemma mset_dup_values:
  assumes invd: "imap_inv dest" and invs: "imap_inv src"
  shows "mset (dup_values (nodes_m dest) (nodes_m src)) =
         image_mset (\<lambda>k. the (imap_get src k))
           (mset_set (dom (imap_get dest) \<inter> dom (imap_get src)))"
proof -
  let ?es = "entries_slots 0 (nodes_m src)"
  let ?A = "fst ` set (entries_slots 0 (nodes_m dest))"
  have wfd: "wf_slots (nodes_m dest)" "length (nodes_m dest) = 32"
    using invd by (simp_all add: imap_inv_def)
  have wfs: "wf_slots (nodes_m src)" "length (nodes_m src) = 32"
    using invs by (simp_all add: imap_inv_def)
  have d: "distinct (map fst ?es)"
    using distinct_entries_slots [OF wfs(1), of 0] wfs(2) by simp
  have mo: "map_of ?es = lookup_slots (nodes_m src)" by (rule map_of_entries [OF wfs])
  have A: "?A = unat ` dom (imap_get dest)"
    using dom_lookup_slots [OF wfd] dom_lookup_unat [OF invd] by simp
  have S: "fst ` set ?es = unat ` dom (imap_get src)"
    using dom_lookup_slots [OF wfs] dom_lookup_unat [OF invs] by simp
  have inj: "inj (unat :: u64 \<Rightarrow> nat)"
    by (rule injI) (simp add: unat_inj_key)
  have AS: "?A \<inter> fst ` set ?es = unat ` (dom (imap_get dest) \<inter> dom (imap_get src))"
    unfolding A S using inj by (simp add: image_Int)
  have "dup_values (nodes_m dest) (nodes_m src) = map snd (filter (\<lambda>e. fst e \<in> ?A) ?es)"
    using wfd wfs by (intro dup_values_entries) simp_all
  then have "mset (dup_values (nodes_m dest) (nodes_m src)) =
      image_mset (\<lambda>k. the (map_of ?es k)) (mset_set (?A \<inter> fst ` set ?es))"
    using mset_filter_alist [OF d, of ?A] by simp
  also have "mset_set (?A \<inter> fst ` set ?es) =
      image_mset unat (mset_set (dom (imap_get dest) \<inter> dom (imap_get src)))"
    unfolding AS by (intro image_mset_mset_set [symmetric] inj_onI) (simp add: unat_inj_key)
  finally show ?thesis
    unfolding mo by (simp add: multiset.map_comp comp_def imap_get_lookup)
qed

lemma len_of_count: "len_ok m \<Longrightarrow> len m = of_nat (count_slots (nodes_m m))"
proof -
  assume "len_ok m"
  then have "of_nat (unat (len m)) = (of_nat (count_slots (nodes_m m)) :: u64)"
    by (simp add: len_ok_count_slots)
  then show ?thesis by simp
qed

definition union_post :: "'a imap \<Rightarrow> 'a imap \<Rightarrow> 'a imap \<Rightarrow> bool" where
  "union_post dest src dest' =
     (imap_inv dest' \<and> len_ok dest' \<and>
      (\<forall>k. imap_get dest' k =
         (case imap_get dest k of Some v \<Rightarrow> Some v | None \<Rightarrow> imap_get src k)))"

lemma imap_union_core_correct:
  assumes invd: "imap_inv dest" and lod: "len_ok dest"
    and invs: "imap_inv src" and los: "len_ok src"
    and room: "card (dom (imap_get dest) \<union> dom (imap_get src)) < 2 ^ 64"
  shows "\<exists>dest'. imap_union_core dest src decref st =
           (dest', None, fold decref (dup_values (nodes_m dest) (nodes_m src)) st) \<and>
         union_post dest src dest'"
proof -
  let ?dns = "nodes_m dest" and ?ns = "nodes_m src"
  have wfd: "wf_slots ?dns" "length ?dns = 32"
    using invd by (simp_all add: imap_inv_def)
  have wfs: "wf_slots ?ns" "length ?ns = 32"
    using invs by (simp_all add: imap_inv_def)
  have bd: "\<forall>k \<in> dom (lookup_slots ?dns). k < 2 ^ 64" using invd by (rule imap_inv_bound)
  have bs: "\<forall>k \<in> dom (lookup_slots ?ns). k < 2 ^ 64" using invs by (rule imap_inv_bound)
  show ?thesis
  proof (cases "len src = 0")
    case True
    then have e: "entries_slots 0 ?ns = []" using los by (simp add: len_ok_def)
    then have "lookup_slots ?ns = Map.empty" using map_of_entries [OF wfs] by simp
    then have none: "\<And>k. imap_get src k = None" by (simp add: imap_get_lookup)
    have "dup_values ?dns ?ns = []"
      using dup_values_entries [of ?dns ?ns 0] wfd wfs e by simp
    moreover have "union_post dest src dest"
      using invd lod none by (simp add: union_post_def split: option.splits)
    ultimately show ?thesis using True by (simp add: imap_union_core_def)
  next
    case False
    have IH: "\<And>nd dn1 st1. nd \<in> set ?ns \<Longrightarrow> nodes dn1 \<noteq> None \<Longrightarrow> nodes nd \<noteq> None \<Longrightarrow>
           wf_node dn1 \<Longrightarrow> (\<exists>dn \<in> set ?dns. lookup_node dn1 = lookup_node dn) \<Longrightarrow>
           ref_post dn1 nd decref st1"
    proof -
      fix nd dn1 st1
      assume nd: "nd \<in> set ?ns" and n1: "nodes dn1 \<noteq> None" and n2: "nodes nd \<noteq> None"
        and w1: "wf_node dn1" and l: "\<exists>dn \<in> set ?dns. lookup_node dn1 = lookup_node dn"
      have w2: "wf_node nd" using wfs(1) nd by (simp add: wf_slots_all)
      obtain i where i: "i < 32" "nd = ?ns ! i"
        using nd wfs(2) by (auto simp: in_set_conv_nth)
      have b2: "bounded_node nd"
        unfolding bounded_node_def i(2) by (rule top_child_bound [OF i(1) bs])
      obtain dn where dn: "dn \<in> set ?dns" "lookup_node dn1 = lookup_node dn" using l by blast
      obtain j where j: "j < 32" "dn = ?dns ! j"
        using dn(1) wfd(2) by (auto simp: in_set_conv_nth)
      have b1: "bounded_node dn1"
        unfolding bounded_node_def dn(2) j(2) by (rule top_child_bound [OF j(1) bd])
      show "ref_post dn1 nd decref st1"
        by (rule union_ref_core_correct [OF w1 w2 b1 b2 n1 n2])
    qed
    have "\<exists>dns' cnt'.
           union_loop_core ?dns ?ns decref (len dest) st =
             (dns', cnt', fold decref (dup_values ?dns ?ns) st) \<and>
           length dns' = length ?dns \<and>
           (\<forall>i < length ?dns. merged (?dns ! i) (?ns ! i) (dns' ! i)) \<and>
           cnt' + of_nat (count_slots ?dns) = len dest + of_nat (count_slots dns')"
      using wfd wfs by (intro loop_union_correct IH) (simp_all add: wf_slots_all)
    then obtain dns' cnt' where
      loop: "union_loop_core ?dns ?ns decref (len dest) st =
               (dns', cnt', fold decref (dup_values ?dns ?ns) st)"
      and len: "length dns' = 32"
      and m: "\<forall>i < 32. merged (?dns ! i) (?ns ! i) (dns' ! i)"
      and cnt: "cnt' + of_nat (count_slots ?dns) = len dest + of_nat (count_slots dns')"
      using wfd(2) by auto
    let ?dest' = "Imap cnt' dns'"
    have lk: "lookup_slots dns' = lookup_slots ?ns ++ lookup_slots ?dns"
      by (rule merged_lookup [OF wfd(2) wfs(2) len m])
    have wf': "wf_slots dns'" by (rule merged_wf [OF len m])
    have b': "\<forall>k \<in> dom (lookup_slots dns'). k < 2 ^ 64"
      unfolding lk using bs bd by auto
    have inv': "imap_inv ?dest'" by (rule imap_invI [OF len wf' b'])
    have get: "\<And>k. imap_get ?dest' k =
        (case imap_get dest k of Some v \<Rightarrow> Some v | None \<Rightarrow> imap_get src k)"
      using lk by (simp add: imap_get_lookup map_add_def split: option.splits)
    have "dom (imap_get ?dest') = dom (imap_get dest) \<union> dom (imap_get src)"
      using get by (auto simp: dom_def split: option.splits)
    then have c: "count_slots dns' < 2 ^ 64"
      using count_keys [OF inv'] room by (simp add: count_slots_entries [of dns' 0])
    have "cnt' = of_nat (count_slots dns')"
      using cnt len_of_count [OF lod] by simp
    then have "unat cnt' = count_slots dns'"
      using c by (simp add: unat_of_nat)
    then have lo': "len_ok ?dest'" by (simp add: len_ok_count_slots)
    have "union_post dest src ?dest'"
      using inv' lo' get by (simp add: union_post_def)
    then show ?thesis using False loop by (simp add: imap_union_core_def)
  qed
qed

text \<open>The map a sequence of operations describes.\<close>

fun apply_op :: "'a imap_op \<Rightarrow> (u64 \<rightharpoonup> 'a) \<Rightarrow> (u64 \<rightharpoonup> 'a)" where
  "apply_op (Add k v) f = f(k \<mapsto> v)"
| "apply_op (Pop k) f = f(k := None)"

lemma run_get:
  "imap_inv m \<Longrightarrow> run ops m al = Some (m', al') \<Longrightarrow>
   imap_get m' = fold apply_op ops (imap_get m)"
proof (induction ops m al rule: run.induct)
  case (1 m al)
  then show ?case by simp
next
  case (2 k v ops m al)
  from "2.prems"(2) obtain rc m1 al1 where
    add: "imap_add m k v al = Some (rc, m1, al1)" and rc: "rc \<noteq> - 1"
    and rest: "run ops m1 al1 = Some (m', al')"
    by (auto split: option.splits if_splits)
  have g: "imap_get m1 = (imap_get m)(k \<mapsto> v)"
    by (rule ext) (simp add: imap_get_after_add [OF "2.prems"(1) add rc])
  have "imap_get m' = fold apply_op ops (imap_get m1)"
    using "2.IH" [OF add refl refl rc _ rest] imap_inv_after_add [OF "2.prems"(1) add]
    by blast
  then show ?case unfolding g by simp
next
  case (3 k ops m al)
  have g: "imap_get (snd (imap_pop m k)) = (imap_get m)(k := None)"
    by (rule ext) (simp add: imap_get_after_pop [OF "3.prems"(1)])
  have "imap_get m' = fold apply_op ops (imap_get (snd (imap_pop m k)))"
    using "3.IH" [OF imap_inv_after_pop [OF "3.prems"(1)]] "3.prems"(2) by simp
  then show ?case unfolding g by simp
qed

lemma imap_get_zeroed: "imap_get (imap_zeroed :: 'a imap) = Map.empty"
proof -
  have "dom (imap_get (imap_zeroed :: 'a imap)) = {}"
    using count_keys [OF imap_inv_zeroed, where ?'a = 'a]
      finite_dom_imap_get [of "imap_zeroed :: 'a imap"]
    by (simp add: imap_zeroed_def entries_slots_zeroed)
  then show ?thesis by simp
qed

section \<open>The blocks that the union frees\<close>

text \<open>
  The children arrays linked in a tree, and the allocated blocks a map consists of: the
  block of the map itself, which holds the top-level array, and one block for every
  children array. A union frees the source when every block of the source is either
  freed or linked in \<open>dest\<close> afterwards, that is, when the number of calls of \<open>free\<close>
  and the blocks of the resulting \<open>dest\<close> add up to the blocks of both maps.
\<close>

fun count_arrays :: "'a imap_node list \<Rightarrow> nat" where
  "count_arrays [] = 0"
| "count_arrays (Node d c s # rest) =
     (case c of None \<Rightarrow> 0 | Some cs \<Rightarrow> 1 + count_arrays cs) + count_arrays rest"

definition blocks :: "'a imap \<Rightarrow> nat" where
  "blocks m = 1 + count_arrays (nodes_m m)"

lemma count_arrays_Cons: "count_arrays (nd # rest) = count_arrays [nd] + count_arrays rest"
  by (cases nd) simp

lemma count_arrays_sel:
  "count_arrays [nd] = (case nodes nd of None \<Rightarrow> 0 | Some cs \<Rightarrow> 1 + count_arrays cs)"
  by (cases nd) simp

lemma union_frees:
  "wf_node dest \<Longrightarrow> wf_node node \<Longrightarrow> nodes dest \<noteq> None \<Longrightarrow> nodes node \<noteq> None \<Longrightarrow>
   snd (snd (IMAP_union_ref dest node decref st fr)) +
     count_arrays [fst (IMAP_union_ref dest node decref st fr)] =
   fr + count_arrays [dest] + count_arrays [node]"
  "wf_slots dns \<Longrightarrow> wf_slots ns \<Longrightarrow> length dns = length ns \<Longrightarrow>
   snd (snd (snd (IMAP_union_loop dns ns decref cnt st fr))) +
     count_arrays (fst (IMAP_union_loop dns ns decref cnt st fr)) =
   fr + count_arrays dns + count_arrays ns"
proof (induction dest node decref st fr and dns ns decref cnt st fr
    rule: IMAP_union_ref_IMAP_union_loop.induct)
  case (1 dest d c s decref st fr)
  obtain cs where c: "c = Some cs" using "1.prems"(4) by auto
  obtain dcs where dcs: "nodes dest = Some dcs" using "1.prems"(3) by auto
  have w: "wf_slots dcs" "wf_slots cs" "length dcs = length cs"
    using "1.prems"(1,2) c dcs by (simp_all add: wf_node_sel)
  have "snd (snd (snd (IMAP_union_loop dcs cs decref (size_n dest) st fr))) +
          count_arrays (fst (IMAP_union_loop dcs cs decref (size_n dest) st fr)) =
        fr + count_arrays dcs + count_arrays cs"
    using "1.IH" [OF c dcs w] .
  then show ?case
    using c dcs by (simp add: split_def count_arrays_sel)
next
  case (2 ns decref cnt st fr)
  then show ?case by simp
next
  case (3 dest_nd drest decref cnt st fr)
  then show ?case by simp
next
  case (4 dest_nd drest d c s rest decref cnt st fr)
  define ds where "ds =
    (case d of
       None \<Rightarrow> (dest_nd, cnt, st)
     | Some v \<Rightarrow>
         if data dest_nd \<noteq> None then (dest_nd, cnt, decref v st)
         else (Node (Some v) (nodes dest_nd) (size_n dest_nd), cnt + 1, st))"
  obtain dn1 cnt1 st1 where ds: "ds = (dn1, cnt1, st1)" by (cases ds)
  define cs where "cs =
    (case c of
       None \<Rightarrow> (dn1, cnt1, st1, fr)
     | Some cs \<Rightarrow>
         if nodes dn1 \<noteq> None
         then (case IMAP_union_ref dn1 (Node d c s) decref st1 fr of
                 (dn', st', fr') \<Rightarrow> (dn', cnt1 + (size_n dn' - size_n dn1), st', fr'))
         else (Node (data dn1) (Some cs) s, cnt1 + s, st1, fr))"
  obtain dn2 cnt2 st2 fr2 where cs: "cs = (dn2, cnt2, st2, fr2)" by (cases cs)
  have wd: "wf_node dest_nd" "wf_slots drest" and wn: "wf_node (Node d c s)" "wf_slots rest"
    and len: "length drest = length rest"
    using "4.prems" by (simp_all add: wf_slots_Cons)
  have dn1: "nodes dn1 = nodes dest_nd" "size_n dn1 = size_n dest_nd"
    using ds unfolding ds_def by (auto split: option.splits if_splits)
  have w1: "wf_node dn1" using wd(1) dn1 by (auto simp: wf_node_sel split: option.splits)
  have c1: "count_arrays [dn1] = count_arrays [dest_nd]"
    using dn1 by (simp add: count_arrays_sel)
  have IH1: "snd (snd (IMAP_union_ref dn1 (Node d c s) decref st1 fr)) +
               count_arrays [fst (IMAP_union_ref dn1 (Node d c s) decref st1 fr)] =
             fr + count_arrays [dn1] + count_arrays [Node d c s]"
    if "c = Some x2" "nodes dn1 \<noteq> None" for x2
    using "4.IH"(1) [of dn1 "(cnt1, st1)" cnt1 st1 x2] ds that w1 wn(1) unfolding ds_def by simp
  have IH2: "snd (snd (snd (IMAP_union_loop drest rest decref cnt2 st2 fr2))) +
               count_arrays (fst (IMAP_union_loop drest rest decref cnt2 st2 fr2)) =
             fr2 + count_arrays drest + count_arrays rest"
    using "4.IH"(2) [of dn1 "(cnt1, st1)" cnt1 st1 dn2 "(cnt2, st2, fr2)" cnt2 "(st2, fr2)" st2 fr2]
      ds cs wd(2) wn(2) len unfolding ds_def cs_def by simp
  have slot: "fr2 + count_arrays [dn2] = fr + count_arrays [dest_nd] + count_arrays [Node d c s]"
  proof (cases c)
    case None
    then show ?thesis using cs c1 unfolding cs_def by auto
  next
    case (Some x2)
    show ?thesis
    proof (cases "nodes dn1 = None")
      case True
      then show ?thesis using cs Some c1 unfolding cs_def by (auto simp: count_arrays_sel)
    next
      case False
      obtain dn' st' fr' where
        r: "IMAP_union_ref dn1 (Node d c s) decref st1 fr = (dn', st', fr')"
        by (cases "IMAP_union_ref dn1 (Node d c s) decref st1 fr")
      have "dn2 = dn'" "fr2 = fr'"
        using cs Some False r unfolding cs_def
        by (auto simp del: IMAP_union_ref.simps)
      then show ?thesis using IH1 [OF Some False] c1 unfolding r by simp
    qed
  qed
  have L: "IMAP_union_loop (dest_nd # drest) (Node d c s # rest) decref cnt st fr =
      (case IMAP_union_loop drest rest decref cnt2 st2 fr2 of
         (drest', cnt3, st3, fr3) \<Rightarrow> (dn2 # drest', cnt3, st3, fr3))"
    using ds cs unfolding ds_def cs_def by (simp del: IMAP_union_ref.simps)
  obtain drest' cnt3 st3 fr3 where
    lp: "IMAP_union_loop drest rest decref cnt2 st2 fr2 = (drest', cnt3, st3, fr3)"
    by (cases "IMAP_union_loop drest rest decref cnt2 st2 fr2")
  have a: "count_arrays (dn2 # drest') = count_arrays [dn2] + count_arrays drest'"
    and b: "count_arrays (dest_nd # drest) = count_arrays [dest_nd] + count_arrays drest"
    and c: "count_arrays (Node d c s # rest) = count_arrays [Node d c s] + count_arrays rest"
    by (rule count_arrays_Cons)+
  have "fr3 + count_arrays drest' = fr2 + count_arrays drest + count_arrays rest"
    using IH2 unfolding lp by simp
  then have "fr3 + count_arrays (dn2 # drest') =
      fr + count_arrays (dest_nd # drest) + count_arrays (Node d c s # rest)"
    unfolding a b c using slot by linarith
  then show ?case unfolding L lp by simp
qed


lemma imap_union_frees:
  assumes "imap_inv dest" and "imap_inv src"
    and "len src = 0 \<longrightarrow> count_arrays (nodes_m src) = 0"
  shows "snd (snd (snd (imap_union_ref dest src decref st))) +
           blocks (fst (imap_union_ref dest src decref st)) =
         blocks dest + blocks src"
proof (cases "len src = 0")
  case True
  then show ?thesis using assms(3) by (simp add: imap_union_ref_def blocks_def)
next
  case False
  have "wf_slots (nodes_m dest)" "wf_slots (nodes_m src)"
    "length (nodes_m dest) = length (nodes_m src)"
    using assms(1,2) by (simp_all add: imap_inv_def)
  then have "snd (snd (snd (IMAP_union_loop (nodes_m dest) (nodes_m src) decref (len dest) st 0))) +
      count_arrays (fst (IMAP_union_loop (nodes_m dest) (nodes_m src) decref (len dest) st 0)) =
      0 + count_arrays (nodes_m dest) + count_arrays (nodes_m src)"
    by (rule union_frees(2))
  then show ?thesis using False by (simp add: imap_union_ref_def blocks_def split_def)
qed

lemma imap_union_ref_correct:
  assumes "imap_inv dest" and "len_ok dest" and "imap_inv src" and "len_ok src"
    and "card (dom (imap_get dest) \<union> dom (imap_get src)) < 2 ^ 64"
  shows "\<exists>dest' fr. imap_union_ref dest src decref st =
           (dest', None, fold decref (dup_values (nodes_m dest) (nodes_m src)) st, fr) \<and>
         union_post dest src dest'"
proof -
  obtain dest' where
    c: "imap_union_core dest src decref st =
          (dest', None, fold decref (dup_values (nodes_m dest) (nodes_m src)) st)"
    and p: "union_post dest src dest'"
    using imap_union_core_correct [OF assms, of decref st] by blast
  show ?thesis
    using imap_union_core [of dest src decref st] p unfolding c by auto
qed

section \<open>Example maps\<close>

text \<open>Concrete maps and callbacks, built with the operations themselves, on which the
  theorems below are instantiated.\<close>

definition map_after_max_key :: "nat imap" where
  "map_after_max_key = fst (snd (the (imap_add imap_zeroed (- 1) 1 [])))"

definition map_after_two_keys :: "nat imap" where
  "map_after_two_keys = fst (snd (the (imap_add map_after_max_key (- 2) 2 [])))"

definition map_after_add :: "nat imap" where
  "map_after_add = fst (snd (the (imap_add imap_zeroed 1056 7 [])))"

definition example_ops :: "nat imap_op list" where
  "example_ops = [Add 5 1, Add 1056 2, Pop 5, Add 1056 3, Pop 77, Add (- 1) 4]"

definition example_result :: "nat imap" where
  "example_result = fst (the (run example_ops imap_zeroed []))"

definition small_map :: "nat imap" where
  "small_map = fst (the (run [Add 1056 10, Add 3 11, Add 35 12, Add 2 13] imap_zeroed []))"

definition log_and_take :: "(nat, nat list) imap_cb" where
  "log_and_take v log = (if v = 10 then 1 else 5, log @ [v])"

definition dest_ops :: "nat imap_op list" where
  "dest_ops = [Add 1 10, Add 2 20, Add 3 30, Add 1056 50]"

definition src_ops :: "nat imap_op list" where
  "src_ops = [Add 2 20, Add 4 40, Add 1056 50, Add 65 60]"

definition union_dest :: "nat imap" where
  "union_dest = fst (the (run dest_ops imap_zeroed []))"

definition union_src :: "nat imap" where
  "union_src = fst (the (run src_ops imap_zeroed []))"

definition log_decref :: "nat \<Rightarrow> nat list \<Rightarrow> nat list" where
  "log_decref v log = log @ [v]"

definition union_result :: "nat imap" where
  "union_result = fst (imap_union_ref union_dest union_src log_decref [])"

definition map_after_failed_add :: "nat imap" where
  "map_after_failed_add = fst (snd (the (imap_add imap_zeroed 1056 7 [True, False])))"

section \<open>The claims\<close>

text \<open>
  C1. \<open>imap_add\<close> is documented to return 1 when a new key is set and 0 when a value is
  overwritten. For a key below 32 (no digit left after the first division) the top-level
  branch increments \<open>len\<close> for a new key but returns the constant 0: on the freshly
  created map, where key 0 is absent, adding key 0 stores the value, makes \<open>len = 1\<close>
  and reports 0, the code of an overwrite.
\<close>

theorem imap_add_first_digit_returns_0:
  "imap_new [] = (Some (imap_zeroed :: nat imap), []) \<and>
   imap_get (imap_zeroed :: nat imap) 0 = None \<and>
   (case imap_add imap_zeroed 0 (7 :: nat) [] of
      None \<Rightarrow> False
    | Some (rc, m, al) \<Rightarrow> rc = 0 \<and> len m = 1 \<and> imap_get m 0 = Some 7)"
  by code_simp

text \<open>
  C3. An allocation failure below the first recursion level does not restore the map.
  Adding key 1056 (digits 0, 0, 0) to the freshly created map needs two children
  arrays; when the first \<open>calloc\<close> succeeds and the second fails, \<open>imap_add\<close> returns
  -1 and the array allocated for top-level slot 0 stays linked, so the map differs from
  the one before the call.
\<close>

theorem failed_add_leaves_array_linked:
  "(case imap_add imap_zeroed 1056 (7 :: nat) [True, False] of
      None \<Rightarrow> False
    | Some (rc, m, al) \<Rightarrow>
        rc = - 1 \<and> m \<noteq> imap_zeroed \<and> len m = 0 \<and>
        nodes (nodes_m m ! 0) = Some (replicate IMAP_NODE_SZ zero_node))"
  by code_simp

text \<open>
  C5. After a failed add the relation between \<open>size\<close> and the children array is broken.
  Adding key 33824 (digits 0, 0, 0, 0) with the third \<open>calloc\<close> failing returns -1 and
  leaves both top-level slot 0 and its child 0 (a node below the top level) with
  \<open>size = 0\<close> and a children array that is not \<open>NULL\<close>.
\<close>

theorem failed_add_breaks_size_invariant:
  "(case imap_add imap_zeroed 33824 (7 :: nat) [True, True, False] of
      None \<Rightarrow> False
    | Some (rc, m, al) \<Rightarrow>
        rc = - 1 \<and>
        size_n (nodes_m m ! 0) = 0 \<and> nodes (nodes_m m ! 0) \<noteq> None \<and>
        (case nodes (nodes_m m ! 0) of
           None \<Rightarrow> False
         | Some cs \<Rightarrow> size_n (cs ! 0) = 0 \<and> nodes (cs ! 0) \<noteq> None))"
  by code_simp

text \<open>
  C7. On a map that satisfies the representation invariant, two successful adds with
  distinct keys leave both values retrievable: \<open>get (k1)\<close> is \<open>v1\<close> and \<open>get (k2)\<close> is
  \<open>v2\<close>. Keys are arbitrary 64-bit words; the witness uses the two largest keys, which
  descend through all thirteen levels.
\<close>

theorem add_add_get:
  assumes inv: "imap_inv m" and neq: "k1 \<noteq> k2"
    and add1: "imap_add m k1 v1 al = Some (rc1, m1, al1)" and ok1: "rc1 \<noteq> - 1"
    and add2: "imap_add m1 k2 v2 al1 = Some (rc2, m2, al2)" and ok2: "rc2 \<noteq> - 1"
  shows "imap_get m2 k1 = Some v1 \<and> imap_get m2 k2 = Some v2"
proof -
  have inv1: "imap_inv m1" using inv add1 by (rule imap_inv_after_add)
  have "imap_get m1 k1 = Some v1"
    using imap_get_after_add [OF inv add1 ok1, of k1] by simp
  then show ?thesis
    using imap_get_after_add [OF inv1 add2 ok2] neq by simp
qed

theorem add_add_get_witness:
  "imap_inv (imap_zeroed :: nat imap) \<and> (- 1 :: u64) \<noteq> - 2 \<and>
   imap_add imap_zeroed (- 1) 1 [] = Some (1, map_after_max_key, []) \<and>
   imap_add map_after_max_key (- 2) 2 [] = Some (1, map_after_two_keys, []) \<and>
   imap_get map_after_two_keys (- 1) = Some 1 \<and> imap_get map_after_two_keys (- 2) = Some 2"
proof -
  have inv: "imap_inv (imap_zeroed :: nat imap)" by (rule imap_inv_zeroed)
  have neq: "(- 1 :: u64) \<noteq> - 2" by simp
  have a1: "imap_add imap_zeroed (- 1) 1 [] = Some (1, map_after_max_key, [])" by code_simp
  have a2: "imap_add map_after_max_key (- 2) 2 [] = Some (1, map_after_two_keys, [])" by code_simp
  show ?thesis
    using add_add_get [OF inv neq a1 _ a2] inv neq a1 a2 by simp
qed

text \<open>
  C6. After a successful \<open>add (map, key, value)\<close>, \<open>pop (map, key)\<close> returns the value,
  a following \<open>get\<close> returns \<open>NULL\<close> and \<open>len\<close> is one less (in \<open>size_t\<close> arithmetic, and
  as a number whenever \<open>len\<close> was the number of entries). Popping a key that is not
  present returns \<open>NULL\<close> and leaves the whole map, \<open>len\<close> included, as it was.
\<close>

theorem pop_after_add:
  assumes inv: "imap_inv m"
    and add: "imap_add m key v al = Some (rc, m1, al1)" and ok: "rc \<noteq> - 1"
  shows "fst (imap_pop m1 key) = Some v \<and>
         imap_get (snd (imap_pop m1 key)) key = None \<and>
         len (snd (imap_pop m1 key)) = len m1 - 1 \<and>
         (len_ok m1 \<longrightarrow> unat (len (snd (imap_pop m1 key))) + 1 = unat (len m1)) \<and>
         (\<forall>k. imap_get m k = None \<longrightarrow> imap_pop m k = (None, m))"
proof -
  have inv1: "imap_inv m1" using inv add by (rule imap_inv_after_add)
  have g: "imap_get m1 key = Some v"
    using imap_get_after_add [OF inv add ok, of key] by simp
  have l: "len (snd (imap_pop m1 key)) = len m1 - 1"
    using len_after_pop [OF inv1, of key] g by simp
  have "unat (len (snd (imap_pop m1 key))) + 1 = unat (len m1)" if lo: "len_ok m1"
  proof -
    have "key \<in> dom (imap_get m1)" using g by (simp add: dom_def)
    then have "0 < card (dom (imap_get m1))"
      using finite_dom_imap_get [of m1] by (auto simp: card_gt_0_iff)
    then have pos: "0 < unat (len m1)" using lo inv1 by (simp add: len_ok_count)
    then have "len m1 \<noteq> 0" by (auto simp: unat_eq_0)
    then have "unat (len m1 - 1) = unat (len m1) - 1" by (simp add: unat_minus_one)
    then show ?thesis unfolding l using pos by simp
  qed
  then show ?thesis
    using imap_pop_result [OF inv1, of key] g imap_get_after_pop [OF inv1, of key key] l
      imap_pop_absent [OF inv]
    by simp
qed

theorem pop_after_add_witness:
  "imap_inv (imap_zeroed :: nat imap) \<and>
   imap_add imap_zeroed 1056 7 [] = Some (1, map_after_add, []) \<and>
   fst (imap_pop map_after_add 1056) = Some 7 \<and>
   imap_get (snd (imap_pop map_after_add 1056)) 1056 = None \<and>
   len (snd (imap_pop map_after_add 1056)) = len map_after_add - 1 \<and>
   len_ok map_after_add \<and>
   unat (len (snd (imap_pop map_after_add 1056))) + 1 = unat (len map_after_add) \<and>
   imap_get (imap_zeroed :: nat imap) 5 = None \<and>
   imap_pop (imap_zeroed :: nat imap) 5 = (None, imap_zeroed)"
proof -
  have inv: "imap_inv (imap_zeroed :: nat imap)" by (rule imap_inv_zeroed)
  have a: "imap_add imap_zeroed 1056 7 [] = Some (1, map_after_add, [])" by code_simp
  have lo: "len_ok map_after_add" by code_simp
  have g: "imap_get (imap_zeroed :: nat imap) 5 = None" by code_simp
  have ok: "(1 :: int) \<noteq> - 1" by simp
  show ?thesis
    using pop_after_add [OF inv a ok] inv a lo g by blast
qed

text \<open>
  C2. Starting from the map that \<open>imap_new\<close> returns, after any sequence of fewer than
  \<open>2 ^ 64\<close> successful add and pop operations \<open>len\<close> is the number of keys whose most
  recent operation is an add, and it is the number of value slots that are not \<open>NULL\<close>,
  summed over the tree.
\<close>

theorem count_after_operations:
  assumes "imap_new al0 = (Some m0, al)"
    and "run ops m0 al = Some (m, al')" and "length ops < 2 ^ 64"
  shows "unat (len m) = card {k. last_is_add ops k} \<and>
         unat (len m) = count_slots (nodes_m m)"
proof -
  have "m0 = imap_zeroed"
    using assms(1) by (auto simp: imap_new_def split: prod.splits bool.splits if_splits)
  then have "imap_inv m \<and> len_ok m \<and> dom (imap_get m) = {k. last_is_add ops k}"
    using run_invariant assms(2,3) by blast
  then show ?thesis
    by (auto simp: len_ok_count count_slots_entries [of _ 0] count_keys)
qed

theorem count_after_operations_witness:
  "imap_new [] = (Some (imap_zeroed :: nat imap), []) \<and>
   run example_ops imap_zeroed [] = Some (example_result, []) \<and>
   length example_ops < 2 ^ 64 \<and>
   unat (len example_result) = card {k. last_is_add example_ops k} \<and>
   unat (len example_result) = count_slots (nodes_m example_result) \<and>
   unat (len example_result) = 2"
proof -
  have n: "imap_new [] = (Some (imap_zeroed :: nat imap), [])" by (simp add: imap_new_def)
  have r: "run example_ops imap_zeroed [] = Some (example_result, [])" by code_simp
  have l: "length example_ops < 2 ^ 64" by (simp add: example_ops_def)
  have v: "unat (len example_result) = 2" by code_simp
  show ?thesis
    using count_after_operations [OF n r l] n r l v by simp
qed

text \<open>
  C8. When the callback returns 1 on every invocation, \<open>imap_walkn\<close> with budget \<open>n\<close>
  invokes it on the first \<open>min n len\<close> values of the walk order, the order in which
  \<open>imap_walk\<close> invokes it on all of them, and leaves the budget reduced by that number.
\<close>

theorem walkn_visits_min:
  assumes "len_ok m" and "\<forall>v c. fst (cb v c) = 1"
  shows "imap_walkn m n cb ctx =
           (calls cb (take (unat n) (walk_order (nodes_m m))) ctx,
            n - of_nat (min (unat n) (unat (len m)))) \<and>
         length (take (unat n) (walk_order (nodes_m m))) = min (unat n) (unat (len m)) \<and>
         fst (imap_walk m cb ctx) = calls cb (walk_order (nodes_m m)) ctx"
  using assms
  by (simp add: imap_walkn_list imap_walk_list walkn_list_unit walk_list_calls
      length_walk_order_len min.commute)

theorem walkn_visits_min_witness:
  "len_ok example_result \<and>
   imap_walkn example_result 1 (\<lambda>v log. (1, log @ [v])) [] = ([3], 0) \<and>
   take (unat (1 :: u64)) (walk_order (nodes_m example_result)) = [3] \<and>
   min (unat (1 :: u64)) (unat (len example_result)) = 1 \<and>
   fst (imap_walk example_result (\<lambda>v log. (1, log @ [v])) []) = [3, 4]"
proof -
  have lo: "len_ok example_result" unfolding len_ok_count_slots by code_simp
  have cb: "\<forall>v c. fst ((\<lambda>v log. (1 :: c_int, log @ [v :: nat])) v c) = 1" by simp
  have tk: "take (unat (1 :: u64)) (walk_order (nodes_m example_result)) = [3]" by code_simp
  have wo: "walk_order (nodes_m example_result) = [3, 4]" by code_simp
  have ln: "unat (len example_result) = 2" by code_simp
  show ?thesis
    using walkn_visits_min [OF lo cb, of 1 "[]"] lo
    unfolding tk wo ln by (simp add: calls_def)
qed

text \<open>
  C9. When \<open>imap_2slist\<close> succeeds on a map whose \<open>len\<close> is the number of entries, the
  sequence has \<open>len\<close> elements, holds the value of every stored key exactly once (as a
  multiset it is the values of the keys \<open>imap_get\<close> finds), and lists them in the walk
  order, the order in which \<open>imap_walk\<close> calls back.
\<close>

theorem to_sequence_complete:
  assumes "imap_inv m" and "len_ok m" and "imap_2slist m al = (Some sl, al')"
  shows "length sl = unat (len m) \<and>
         mset sl = image_mset (\<lambda>k. the (imap_get m k)) (mset_set (dom (imap_get m))) \<and>
         sl = walk_order (nodes_m m) \<and>
         fst (imap_walk m cb ctx) = calls cb sl ctx"
proof -
  have sl: "sl = walk_order (nodes_m m)"
    using assms(2,3) by (rule imap_2slist_list)
  show ?thesis
    unfolding sl using assms(1,2)
    by (simp add: length_walk_order_len mset_walk_order imap_walk_list walk_list_calls)
qed

theorem to_sequence_complete_witness:
  "imap_inv small_map \<and> len_ok small_map \<and>
   imap_2slist small_map [] = (Some [10, 13, 11, 12], []) \<and>
   length [10, 13, 11, 12 :: nat] = unat (len small_map) \<and>
   mset [10, 13, 11, 12 :: nat] =
     image_mset (\<lambda>k. the (imap_get small_map k)) (mset_set (dom (imap_get small_map))) \<and>
   [10, 13, 11, 12] = walk_order (nodes_m small_map) \<and>
   fst (imap_walk small_map (\<lambda>v log. (0, log @ [v])) []) =
     calls (\<lambda>v log. (0, log @ [v])) [10, 13, 11, 12] [] \<and>
   calls (\<lambda>v log. (0 :: c_int, log @ [v])) [10, 13, 11, 12 :: nat] [] = [10, 13, 11, 12]"
proof -
  have r: "run [Add 1056 10, Add 3 11, Add 35 12, Add 2 13] imap_zeroed [] = Some (small_map, [])"
    by code_simp
  have inv: "imap_inv small_map" and lo: "len_ok small_map"
    using run_invariant [OF r] by simp_all
  have sl: "imap_2slist small_map [] = (Some [10, 13, 11, 12], [])" by code_simp
  have c: "calls (\<lambda>v log. (0 :: c_int, log @ [v])) [10, 13, 11, 12 :: nat] [] = [10, 13, 11, 12]"
    by (simp add: calls_def)
  show ?thesis
    using to_sequence_complete [OF inv lo sl, of "\<lambda>v log. (0, log @ [v])" "[]"] inv lo sl c
    by blast
qed

text \<open>
  C10. The budget of \<open>imap_walkn\<close> is a 64-bit unsigned word. Wherever in the traversal
  the callback returns more than the remaining budget (after the values \<open>xs\<close> have been
  called back on and have left the budget \<open>n1\<close>, which is not zero), the subtraction
  wraps to \<open>2 ^ 64 + n1 - r\<close>, which is not zero, and the traversal goes on with the
  remaining values \<open>ys\<close> and that budget. The whole traversal is the one of \<open>walkn_list\<close>
  on the walk order, which stops at a budget of zero and nowhere else: a traversal that
  ends with a budget other than zero has called back on every value, as \<open>imap_walk\<close> does.
\<close>

theorem walkn_budget_wraps:
  assumes "len_ok m" and "walk_order (nodes_m m) = xs @ v # ys"
    and "walkn_list xs cb ctx n = (ctx1, n1)" and "n1 \<noteq> 0"
    and "cb v ctx1 = (r, ctx2)" and "uint n1 < sint r"
  shows "ctx1 = calls cb xs ctx \<and>
         n1 - word_of_int (sint r) \<noteq> 0 \<and>
         uint (n1 - word_of_int (sint r)) = 2 ^ 64 + uint n1 - sint r \<and>
         imap_walkn m n cb ctx = walkn_list ys cb ctx2 (n1 - word_of_int (sint r)) \<and>
         imap_walkn m n cb ctx = walkn_list (walk_order (nodes_m m)) cb ctx n \<and>
         (snd (imap_walkn m n cb ctx) \<noteq> 0 \<longrightarrow>
            fst (imap_walkn m n cb ctx) = fst (imap_walk m cb ctx))"
proof -
  have all: "imap_walkn m n cb ctx = walkn_list (walk_order (nodes_m m)) cb ctx n"
    using assms(1) by (rule imap_walkn_list)
  have "walkn_list (xs @ v # ys) cb ctx n = walkn_list (v # ys) cb ctx1 n1"
    using assms(3) by (simp add: walkn_list_append)
  also have "\<dots> = walkn_list ys cb ctx2 (n1 - word_of_int (sint r))"
    using assms(4,5) by simp
  finally have rest: "imap_walkn m n cb ctx = walkn_list ys cb ctx2 (n1 - word_of_int (sint r))"
    unfolding all assms(2) .
  have pre: "ctx1 = calls cb xs ctx"
    using walkn_list_not_exhausted [of xs cb ctx n] assms(3,4) by simp
  have full: "snd (imap_walkn m n cb ctx) \<noteq> 0 \<longrightarrow>
      fst (imap_walkn m n cb ctx) = fst (imap_walk m cb ctx)"
    using assms(1) walkn_list_not_exhausted [of "walk_order (nodes_m m)" cb ctx n]
    by (simp add: imap_walkn_list imap_walk_list walk_list_calls)
  show ?thesis
    using budget_wraps [OF assms(6)] pre rest all full by blast
qed

theorem walkn_budget_wraps_witness:
  "len_ok small_map \<and> walk_order (nodes_m small_map) = [10] @ 13 # [11, 12] \<and>
   walkn_list [10] log_and_take [] 3 = ([10], 2) \<and> (2 :: u64) \<noteq> 0 \<and>
   log_and_take 13 [10] = (5, [10, 13]) \<and> uint (2 :: u64) < sint (5 :: c_int) \<and>
   [10] = calls log_and_take [10] [] \<and>
   (2 :: u64) - word_of_int (sint (5 :: c_int)) \<noteq> 0 \<and>
   uint ((2 :: u64) - word_of_int (sint (5 :: c_int))) = 2 ^ 64 + uint (2 :: u64) - sint (5 :: c_int) \<and>
   imap_walkn small_map 3 log_and_take [] =
     walkn_list [11, 12] log_and_take [10, 13] (2 - word_of_int (sint (5 :: c_int))) \<and>
   imap_walkn small_map 3 log_and_take [] = ([10, 13, 11, 12], - 13) \<and>
   fst (imap_walkn small_map 3 log_and_take []) = fst (imap_walk small_map log_and_take [])"
proof -
  have r: "run [Add 1056 10, Add 3 11, Add 35 12, Add 2 13] imap_zeroed [] = Some (small_map, [])"
    by code_simp
  have lo: "len_ok small_map" using run_invariant [OF r] by simp
  have wo: "walk_order (nodes_m small_map) = [10] @ 13 # [11, 12]" by code_simp
  have pre: "walkn_list [10] log_and_take [] 3 = ([10], 2)" by (simp add: log_and_take_def)
  have n: "(2 :: u64) \<noteq> 0" by simp
  have cb: "log_and_take 13 [10] = (5, [10, 13])" by (simp add: log_and_take_def)
  have lt: "uint (2 :: u64) < sint (5 :: c_int)" by simp
  have ev: "imap_walkn small_map 3 log_and_take [] = ([10, 13, 11, 12], - 13)"
    by code_simp
  have nz: "snd (imap_walkn small_map 3 log_and_take []) \<noteq> 0"
    unfolding ev by simp
  show ?thesis
    using walkn_budget_wraps [where cb = log_and_take and ctx = "[]" and v = 13 and n = 3,
        OF lo wo pre n cb lt] lo wo pre n cb lt ev nz
    by blast
qed

text \<open>
  C4. \<open>imap_union_ref\<close> does not free a source that holds no entry but has a children
  array linked. Such a source comes from a failed add: adding key 1056 to the freshly
  created map with the second \<open>calloc\<close> failing returns -1 and leaves \<open>len = 0\<close> and an
  empty children array under top-level slot 0, so the source consists of two blocks.
  Because \<open>len\<close> is zero the union skips its loop and calls \<open>free\<close> once, for the map
  itself; \<open>dest\<close> is the freshly created map before and after and has taken over
  nothing, so the children array of the source is neither freed nor owned.
\<close>

theorem union_leaks_array_after_failed_add:
  "imap_add imap_zeroed 1056 (7 :: nat) [True, False] = Some (- 1, map_after_failed_add, []) \<and>
   len map_after_failed_add = 0 \<and>
   nodes (nodes_m map_after_failed_add ! 0) = Some (replicate IMAP_NODE_SZ zero_node) \<and>
   blocks map_after_failed_add = 2 \<and>
   blocks (imap_zeroed :: nat imap) = 1 \<and>
   imap_union_ref imap_zeroed map_after_failed_add log_decref [] = (imap_zeroed, None, [], 1)"
  by code_simp

section \<open>Further properties of insertion\<close>

text \<open>
  A successful \<open>imap_add\<close> on a map that satisfies the invariant binds the key to the
  value and increments \<open>len\<close> exactly when the key was not bound. Its return code is 1
  for a new key only when the key has more than one digit (\<open>key / 32\<close> is not zero); for a
  key below 32 it is 0 in both cases.
\<close>

theorem add_result_by_depth:
  assumes "imap_inv m" and "imap_add m key d al = Some (rc, m', al')" and "rc \<noteq> - 1"
  shows "imap_get m' key = Some d \<and>
         len m' = (if imap_get m key = None then len m + 1 else len m) \<and>
         rc = (if key div 32 \<noteq> 0 \<and> imap_get m key = None then 1 else 0)"
proof -
  have "imap_add_post m key d rc m'"
    using imap_add_correct [OF assms(1), of key d al] assms(2) by auto
  then show ?thesis
    using assms(3) imap_get_after_add [OF assms, of key]
    by (simp add: imap_add_post_def)
qed

theorem add_result_by_depth_witness:
  "imap_inv (imap_zeroed :: nat imap) \<and>
   imap_add imap_zeroed 1056 7 [] = Some (1, map_after_add, []) \<and> (1 :: int) \<noteq> - 1 \<and>
   imap_get map_after_add 1056 = Some 7 \<and>
   len map_after_add =
     (if imap_get (imap_zeroed :: nat imap) 1056 = None
      then len (imap_zeroed :: nat imap) + 1 else len (imap_zeroed :: nat imap)) \<and>
   (1 :: int) = (if (1056 :: u64) div 32 \<noteq> 0 \<and> imap_get (imap_zeroed :: nat imap) 1056 = None
                 then 1 else 0)"
proof -
  have inv: "imap_inv (imap_zeroed :: nat imap)" by (rule imap_inv_zeroed)
  have a: "imap_add imap_zeroed 1056 7 [] = Some (1, map_after_add, [])" by code_simp
  have ok: "(1 :: int) \<noteq> - 1" by simp
  show ?thesis
    using add_result_by_depth [OF inv a ok] inv a ok by blast
qed

text \<open>
  A failed \<open>imap_add\<close> (return code -1) leaves \<open>len\<close>, every lookup and the number of
  entries as they were, and the invariant holds afterwards; the map itself may differ by
  empty children arrays (as in the example of a failed add above).
\<close>

theorem failed_add_keeps_contents:
  assumes "imap_inv m" and "imap_add m key d al = Some (- 1, m', al')"
  shows "len m' = len m \<and> imap_inv m' \<and> imap_get m' k = imap_get m k \<and>
         count_slots (nodes_m m') = count_slots (nodes_m m)"
proof -
  have p: "imap_add_post m key d (- 1) m'"
    using imap_add_correct [OF assms(1), of key d al] assms(2) by auto
  then have inv': "imap_inv m'" and l: "len m' = len m"
    and lk: "lookup_slots (nodes_m m') = lookup_slots (nodes_m m)"
    by (simp_all add: imap_add_post_def)
  have g: "imap_get m' = imap_get m"
    by (rule ext) (simp add: imap_get_lookup lk)
  have "count_slots (nodes_m m') = count_slots (nodes_m m)"
    using count_keys [OF inv'] count_keys [OF assms(1)] g
    by (simp add: count_slots_entries [of _ 0])
  then show ?thesis using inv' l g by simp
qed

theorem failed_add_keeps_contents_witness:
  "imap_inv (imap_zeroed :: nat imap) \<and>
   imap_add imap_zeroed 1056 7 [True, False] = Some (- 1, map_after_failed_add, []) \<and>
   len map_after_failed_add = len (imap_zeroed :: nat imap) \<and>
   imap_inv map_after_failed_add \<and>
   imap_get map_after_failed_add 1056 = imap_get (imap_zeroed :: nat imap) 1056 \<and>
   count_slots (nodes_m map_after_failed_add) = count_slots (nodes_m (imap_zeroed :: nat imap)) \<and>
   map_after_failed_add \<noteq> imap_zeroed"
proof -
  have inv: "imap_inv (imap_zeroed :: nat imap)" by (rule imap_inv_zeroed)
  have a: "imap_add imap_zeroed 1056 7 [True, False] = Some (- 1, map_after_failed_add, [])"
    by code_simp
  have ne: "map_after_failed_add \<noteq> imap_zeroed" by code_simp
  show ?thesis
    using failed_add_keeps_contents [OF inv a, of 1056] inv a ne by blast
qed

text \<open>
  On a map that satisfies the invariant \<open>imap_add\<close> never follows a \<open>NULL\<close> children
  array (it returns a result) and leaves the invariant in place whatever the allocator
  does; \<open>imap_pop\<close> returns what \<open>imap_get\<close> finds and leaves the invariant in place.
\<close>

theorem operations_keep_invariant:
  assumes "imap_inv m"
  shows "(\<exists>rc m' al'. imap_add m key d al = Some (rc, m', al') \<and> imap_inv m') \<and>
         imap_inv (snd (imap_pop m key)) \<and>
         fst (imap_pop m key) = imap_get m key"
  using imap_add_correct [OF assms, of key d al] imap_inv_after_pop [OF assms, of key]
    imap_pop_result [OF assms, of key]
  by (auto simp: imap_add_post_def)

theorem operations_keep_invariant_witness:
  "imap_inv map_after_failed_add \<and>
   (\<exists>rc m' al'. imap_add map_after_failed_add 1056 7 [] = Some (rc, m', al') \<and> imap_inv m') \<and>
   imap_inv (snd (imap_pop map_after_failed_add 1056)) \<and>
   fst (imap_pop map_after_failed_add 1056) = imap_get map_after_failed_add 1056"
proof -
  have a: "imap_add imap_zeroed 1056 7 [True, False] = Some (- 1, map_after_failed_add, [])"
    by code_simp
  have inv: "imap_inv map_after_failed_add"
    using imap_inv_after_add [OF imap_inv_zeroed a] .
  show ?thesis
    using operations_keep_invariant [OF inv, of 1056 7 "[]"] inv by blast
qed

section \<open>Further properties of the union\<close>

text \<open>
  Let \<open>dest\<close> and \<open>source\<close> satisfy the representation invariant with accurate
  \<open>len\<close>, bind the same value wherever both hold a key, and together hold fewer than
  \<open>2 ^ 64\<close> keys; let a source without entries have no children array linked. Then
  \<open>imap_union_ref\<close> leaves in \<open>dest\<close> exactly the key/value pairs of either map, makes
  \<open>dest.len\<close> the number of keys of the union, calls \<open>decref\<close> on the values of the keys
  that both maps hold, once per such key and on nothing else, sets the caller's handle
  of the source to \<open>NULL\<close>, and frees every block of the source that it has not linked
  into \<open>dest\<close>.
\<close>

theorem union_ref_merges_and_frees:
  assumes "imap_inv dest" and "len_ok dest" and "imap_inv src" and "len_ok src"
    and same: "\<forall>k v v'. imap_get dest k = Some v \<longrightarrow> imap_get src k = Some v' \<longrightarrow> v = v'"
    and room: "card (dom (imap_get dest) \<union> dom (imap_get src)) < 2 ^ 64"
    and tight: "len src = 0 \<longrightarrow> count_arrays (nodes_m src) = 0"
  shows "case imap_union_ref dest src decref st of
           (dest', handle, st', fr) \<Rightarrow>
             handle = None \<and>
             fr + blocks dest' = blocks dest + blocks src \<and>
             (\<forall>k v. (imap_get dest' k = Some v) =
                    (imap_get dest k = Some v \<or> imap_get src k = Some v)) \<and>
             unat (len dest') = card (dom (imap_get dest) \<union> dom (imap_get src)) \<and>
             st' = fold decref (dup_values (nodes_m dest) (nodes_m src)) st \<and>
             mset (dup_values (nodes_m dest) (nodes_m src)) =
               image_mset (\<lambda>k. the (imap_get src k))
                 (mset_set (dom (imap_get dest) \<inter> dom (imap_get src)))"
proof -
  obtain dest' fr where
    r: "imap_union_ref dest src decref st =
          (dest', None, fold decref (dup_values (nodes_m dest) (nodes_m src)) st, fr)"
    and p: "union_post dest src dest'"
    using imap_union_ref_correct [OF assms(1-4) room, of decref st] by blast
  have f: "fr + blocks dest' = blocks dest + blocks src"
    using imap_union_frees [OF assms(1,3) tight, of decref st] unfolding r by simp
  have get: "\<And>k. imap_get dest' k =
      (case imap_get dest k of Some v \<Rightarrow> Some v | None \<Rightarrow> imap_get src k)"
    and inv': "imap_inv dest'" and lo': "len_ok dest'"
    using p by (simp_all add: union_post_def)
  have g: "\<forall>k v. (imap_get dest' k = Some v) =
                 (imap_get dest k = Some v \<or> imap_get src k = Some v)"
    using same by (auto simp: get split: option.splits)
  have "dom (imap_get dest') = dom (imap_get dest) \<union> dom (imap_get src)"
    by (auto simp: get dom_def split: option.splits)
  then have c: "unat (len dest') = card (dom (imap_get dest) \<union> dom (imap_get src))"
    using lo' inv' by (simp add: len_ok_count)
  show ?thesis
    unfolding r using f g c mset_dup_values [OF assms(1,3)] by simp
qed

theorem union_ref_merges_and_frees_witness:
  "imap_inv union_dest \<and> len_ok union_dest \<and> imap_inv union_src \<and> len_ok union_src \<and>
   imap_get union_dest 2 = Some 20 \<and> imap_get union_src 2 = Some 20 \<and>
   card (dom (imap_get union_dest) \<union> dom (imap_get union_src)) < 2 ^ 64 \<and>
   len union_src \<noteq> 0 \<and>
   imap_union_ref union_dest union_src log_decref [] = (union_result, None, [50, 20], 3) \<and>
   3 + blocks union_result = blocks union_dest + blocks union_src \<and>
   blocks union_src = 4 \<and>
   (imap_get union_result 4 = Some 40) =
     (imap_get union_dest 4 = Some 40 \<or> imap_get union_src 4 = Some 40) \<and>
   imap_get union_result 4 = Some 40 \<and>
   unat (len union_result) = card (dom (imap_get union_dest) \<union> dom (imap_get union_src)) \<and>
   unat (len union_result) = 6 \<and>
   [50, 20] = fold log_decref (dup_values (nodes_m union_dest) (nodes_m union_src)) [] \<and>
   mset (dup_values (nodes_m union_dest) (nodes_m union_src)) =
     image_mset (\<lambda>k. the (imap_get union_src k))
       (mset_set (dom (imap_get union_dest) \<inter> dom (imap_get union_src)))"
proof -
  have rd: "run dest_ops imap_zeroed [] = Some (union_dest, [])" by code_simp
  have rs: "run src_ops imap_zeroed [] = Some (union_src, [])" by code_simp
  have ld: "length dest_ops < 2 ^ 64" and ls: "length src_ops < 2 ^ 64"
    by (simp_all add: dest_ops_def src_ops_def)
  have invd: "imap_inv union_dest" and lod: "len_ok union_dest"
    using run_invariant [OF rd ld] by simp_all
  have invs: "imap_inv union_src" and los: "len_ok union_src"
    using run_invariant [OF rs ls] by simp_all
  have gd: "imap_get union_dest = [1 \<mapsto> 10, 2 \<mapsto> 20, 3 \<mapsto> 30, 1056 \<mapsto> 50]"
    using run_get [OF imap_inv_zeroed rd] by (simp add: dest_ops_def imap_get_zeroed)
  have gs: "imap_get union_src = [2 \<mapsto> 20, 4 \<mapsto> 40, 1056 \<mapsto> 50, 65 \<mapsto> 60]"
    using run_get [OF imap_inv_zeroed rs] by (simp add: src_ops_def imap_get_zeroed)
  have same: "\<forall>k v v'. imap_get union_dest k = Some v \<longrightarrow> imap_get union_src k = Some v' \<longrightarrow> v = v'"
    unfolding gd gs by (auto split: if_splits)
  have g2: "imap_get union_dest 2 = Some 20" "imap_get union_src 2 = Some 20"
    unfolding gd gs by simp_all
  have "card (dom (imap_get union_dest) \<union> dom (imap_get union_src)) \<le>
        card (dom (imap_get union_dest)) + card (dom (imap_get union_src))"
    by (rule card_Un_le)
  also have "\<dots> = unat (len union_dest) + unat (len union_src)"
    using invd lod invs los by (simp add: len_ok_count)
  also have "\<dots> < 2 ^ 64"
  proof -
    have "unat (len union_dest) = 4" by code_simp
    moreover have "unat (len union_src) = 4" by code_simp
    ultimately show ?thesis by simp
  qed
  finally have room: "card (dom (imap_get union_dest) \<union> dom (imap_get union_src)) < 2 ^ 64" .
  have ev: "imap_union_ref union_dest union_src log_decref [] = (union_result, None, [50, 20], 3)"
    by code_simp
  have nz: "len union_src \<noteq> 0" by code_simp
  then have tight: "len union_src = 0 \<longrightarrow> count_arrays (nodes_m union_src) = 0" by simp
  have bs: "blocks union_src = 4" by code_simp
  have l6: "unat (len union_result) = 6" by code_simp
  have g4: "imap_get union_result 4 = Some 40" by code_simp
  note T = union_ref_merges_and_frees [OF invd lod invs los same room tight,
      of log_decref "[]", unfolded ev]
  show ?thesis
    using T invd lod invs los g2 room ev l6 g4 nz bs by simp
qed

section \<open>The sum of the callback results\<close>

text \<open>
  The result of \<open>imap_walk\<close> is the sum of the callback results as a C \<open>int\<close>: on a map
  with two entries and a callback that returns \<open>INT_MAX\<close>, the 32-bit sum wraps around
  to -2.
\<close>

theorem walk_sum_wraps:
  "unat (len example_result) = 2 \<and>
   sint (snd (imap_walk example_result (\<lambda>v ctx. (2147483647, ctx)) ())) = - 2"
  by code_simp

end
